theory Spec2Isabelle
  imports Complex_Main "HOL-Library.Word"
begin

section \<open>Data model\<close>

text \<open>
  A frame is a numpy array of shape \<open>(h, w, 3)\<close> with dtype uint8: a list of rows, each
  row a list of three-channel pixels.  An alpha mask is an array of shape \<open>(h, w)\<close> with
  dtype uint8.  The window image carries a fourth channel.
\<close>

type_synonym u8 = "8 word"
type_synonym pixel = "u8 \<times> u8 \<times> u8"
type_synonym image = "pixel list list"
type_synonym mask = "u8 list list"
type_synonym rgba_image = "(u8 \<times> u8 \<times> u8 \<times> u8) list list"

datatype error = ZeroDivisionError | CvError | ValueError

text \<open>\<open>a.shape[0]\<close> and \<open>a.shape[1]\<close>.\<close>

definition shape0 :: "'a list list \<Rightarrow> int" where
  "shape0 a = int (length a)"

definition shape1 :: "'a list list \<Rightarrow> int" where
  "shape1 a = (case a of [] \<Rightarrow> 0 | r # _ \<Rightarrow> int (length r))"

text \<open>The array \<open>a\<close> is rectangular with \<open>h\<close> rows and \<open>w\<close> columns.\<close>

definition has_shape :: "nat \<Rightarrow> nat \<Rightarrow> 'a list list \<Rightarrow> bool" where
  "has_shape h w a \<longleftrightarrow> length a = h \<and> list_all (\<lambda>r. length r = w) a"

text \<open>\<open>np.zeros((h, w))\<close> and \<open>np.full((h, w), v)\<close>.\<close>

definition full :: "int \<Rightarrow> int \<Rightarrow> 'a \<Rightarrow> 'a list list" where
  "full h w v = replicate (nat h) (replicate (nat w) v)"

definition black :: pixel where
  "black = (0, 0, 0)"

text \<open>
  Python's \<open>xs[i:j]\<close>: a negative index counts from the end, and both ends are clipped to
  the length.
\<close>

definition slice_index :: "nat \<Rightarrow> int \<Rightarrow> nat" where
  "slice_index n k = (if k < 0 then nat (max 0 (k + int n)) else min (nat k) n)"

definition py_slice :: "int \<Rightarrow> int \<Rightarrow> 'a list \<Rightarrow> 'a list" where
  "py_slice i j xs =
     (let s = slice_index (length xs) i; e = slice_index (length xs) j
      in take (e - s) (drop s xs))"

text \<open>\<open>a[y:y2, x:x2]\<close>\<close>

definition slice2 :: "int \<Rightarrow> int \<Rightarrow> int \<Rightarrow> int \<Rightarrow> 'a list list \<Rightarrow> 'a list list" where
  "slice2 y y2 x x2 a = map (py_slice x x2) (py_slice y y2 a)"

text \<open>\<open>def clamp(v, lo, hi): return max(lo, min(hi, v))\<close>\<close>

definition clamp :: "int \<Rightarrow> int \<Rightarrow> int \<Rightarrow> int" where
  "clamp v lo hi = max lo (min hi v)"

subsection \<open>Configuration and window state\<close>

text \<open>
  The reference colours are RGB triples sampled from 8-bit frames; the HSV bounds are
  converted to uint8 by the code before use.
\<close>

record chroma_config =
  chroma_enabled :: bool
  pickA :: "pixel option"
  tolA :: int
  pickB :: "pixel option"
  tolB :: int
  use_hsv :: bool
  h_min :: u8
  h_max :: u8
  s_min :: u8
  s_max :: u8
  v_min :: u8
  v_max :: u8
  feather :: int

record crop_config =
  crop_enabled :: bool
  rect :: "(int \<times> int \<times> int \<times> int) option"

datatype window_shape = Circle | Square

datatype vcam_fit = Fill | Letterbox

record app_state =
  window_mirror :: bool
  vcam_mirror :: bool
  circle_diameter :: int
  window_shape :: window_shape
  vcam_fit :: vcam_fit

datatype log_entry =
    NoFrameWarning int
  | FramesRecovered int
  | TickException error
  | VcamSendError

text \<open>
  The fields of \<open>RoundCamWindow\<close> that the frame path reads or writes.  \<open>width\<close> is the
  widget's current width (\<open>self.size().width()\<close>), \<open>vcam\<close> tells whether a virtual
  camera is open, \<open>vcam_out\<close> is the last frame it accepted, \<open>log\<close> collects what the
  logger was given.
\<close>

record round_cam_window =
  state :: app_state
  chroma :: chroma_config
  crop :: crop_config
  cap_opened :: bool
  no_frame_count :: int
  last_frame_bgr :: "image option"
  current_qpix :: "rgba_image option"
  vcam :: bool
  vcam_w :: int
  vcam_h :: int
  vcam_out :: "image option"
  width :: int
  log :: "log_entry list"

text \<open>
  The dataclass defaults of the source, and the window as \<open>__init__\<close> leaves it when
  no configuration file exists: the camera is open, no frame has been read, the widget
  has been resized to the default diameter, and the virtual camera (off by default) has
  the command line's default resolution.
\<close>

definition default_chroma :: chroma_config where
  "default_chroma =
     \<lparr>chroma_enabled = False, pickA = None, tolA = 30, pickB = None, tolB = 30,
      use_hsv = False, h_min = 35, h_max = 85, s_min = 40, s_max = 255,
      v_min = 40, v_max = 255, feather = 15\<rparr>"

definition default_crop :: crop_config where
  "default_crop = \<lparr>crop_enabled = False, rect = None\<rparr>"

definition default_state :: app_state where
  "default_state =
     \<lparr>window_mirror = False, vcam_mirror = False, circle_diameter = 360,
      window_shape = Circle, vcam_fit = Fill\<rparr>"

definition default_window :: round_cam_window where
  "default_window =
     \<lparr>state = default_state, chroma = default_chroma, crop = default_crop,
      cap_opened = True, no_frame_count = 0, last_frame_bgr = None,
      current_qpix = None, vcam = False, vcam_w = 1920, vcam_h = 1080,
      vcam_out = None, width = 360, log = []\<rparr>"

section \<open>Window scaling\<close>

text \<open>
  \<open>scale_circle\<close>: the diameter moves by 20 per step and is clamped to 120..1080; the
  widget is resized to the new diameter.
\<close>

definition scale_circle :: "round_cam_window \<Rightarrow> int \<Rightarrow> round_cam_window" where
  "scale_circle self direction =
     (let d = clamp (circle_diameter (state self) + 20 * direction) 120 1080
      in self\<lparr>state := (state self)\<lparr>circle_diameter := d\<rparr>, width := d\<rparr>)"

text \<open>The window after a sequence of key presses, each calling \<open>scale_circle\<close>.\<close>

definition scale_circle_calls :: "round_cam_window \<Rightarrow> int list \<Rightarrow> round_cam_window" where
  "scale_circle_calls self ds = foldl scale_circle self ds"

section \<open>Crop step\<close>

text \<open>The clamping of the stored rect against the frame, lines 1186-1187 of the source.\<close>

definition clamp_rect :: "image \<Rightarrow> int \<times> int \<times> int \<times> int \<Rightarrow> int \<times> int \<times> int \<times> int" where
  "clamp_rect src r =
     (case r of (x, y, w, h) \<Rightarrow>
        let x2 = clamp x 0 (shape1 src - 1);
            y2 = clamp y 0 (shape0 src - 1);
            w2 = clamp w 1 (shape1 src - x2);
            h2 = clamp h 1 (shape0 src - y2)
        in (x2, y2, w2, h2))"

text \<open>
  \<open>if self.crop.enabled and self.crop.rect: ... src = src[y2:y2 + h2, x2:x2 + w2].copy()\<close>;
  an unset rect is falsy.
\<close>

definition crop_step :: "crop_config \<Rightarrow> image \<Rightarrow> image" where
  "crop_step c src =
     (if crop_enabled c then
        (case rect c of
           None \<Rightarrow> src
         | Some r \<Rightarrow>
             (case clamp_rect src r of (x2, y2, w2, h2) \<Rightarrow>
                slice2 y2 (y2 + h2) x2 (x2 + w2) src))
      else src)"

section \<open>Alpha composition\<close>

text \<open>
  \<open>(alpha.astype(np.uint16) * shape_mask.astype(np.uint16) // 255).astype(np.uint8)\<close>,
  one element: the product and the quotient are computed in 16 bits, the result is cut
  to 8 bits.
\<close>

definition composite_px :: "u8 \<Rightarrow> u8 \<Rightarrow> u8" where
  "composite_px a s = ucast (((ucast a :: 16 word) * (ucast s :: 16 word)) div 255)"

text \<open>The same on two arrays of the region's shape.\<close>

definition composite :: "mask \<Rightarrow> mask \<Rightarrow> mask" where
  "composite alpha shape_mask = map2 (map2 composite_px) alpha shape_mask"

section \<open>OpenCV as a parameter\<close>

text \<open>
  The OpenCV functions the frame path calls are not part of the program.  The model takes
  them as a record of functions: \<open>cv_resize interp src nw nh\<close> is the result of
  \<open>cv2.resize(src, (nw, nh), interpolation=interp)\<close> on a non-empty source,
  \<open>cv_gaussian_blur k m\<close> is \<open>cv2.GaussianBlur(m, (k, k), 0)\<close>, and \<open>cv_bgr2hsv\<close> is
  the per-pixel colour conversion of \<open>cv2.cvtColor(img, cv2.COLOR_BGR2HSV)\<close>.  What the
  theorems need of them is stated as a hypothesis where it is used.
\<close>

datatype interpolation = INTER_LINEAR | INTER_AREA

record cv2 =
  cv_resize :: "interpolation \<Rightarrow> image \<Rightarrow> nat \<Rightarrow> nat \<Rightarrow> image"
  cv_gaussian_blur :: "nat \<Rightarrow> mask \<Rightarrow> mask"
  cv_bgr2hsv :: "pixel \<Rightarrow> pixel"

text \<open>
  \<open>cv2.resize\<close> raises \<open>cv2.error\<close> on an empty source and on a target size with a
  side below 1 (no scale factors are passed).
\<close>

definition cv2_resize :: "cv2 \<Rightarrow> image \<Rightarrow> int \<times> int \<Rightarrow> interpolation \<Rightarrow> error + image" where
  "cv2_resize cv src dsize interp =
     (case dsize of (nw, nh) \<Rightarrow>
        if shape0 src < 1 \<or> shape1 src < 1 \<or> nw < 1 \<or> nh < 1 then Inl CvError
        else Inr (cv_resize cv interp src (nat nw) (nat nh)))"

text \<open>\<open>cv2.GaussianBlur\<close> raises \<open>cv2.error\<close> on an empty source.\<close>

definition cv2_GaussianBlur :: "cv2 \<Rightarrow> mask \<Rightarrow> int \<Rightarrow> error + mask" where
  "cv2_GaussianBlur cv m k =
     (if shape0 m < 1 \<or> shape1 m < 1 then Inl CvError
      else Inr (cv_gaussian_blur cv (nat k) m))"

text \<open>The resize has the requested size.\<close>

definition resize_ok :: "cv2 \<Rightarrow> bool" where
  "resize_ok cv \<longleftrightarrow>
     (\<forall>interp src nw nh. has_shape nh nw (cv_resize cv interp src nw nh))"

text \<open>Pointwise order of two masks of the same shape.\<close>

definition mask_le :: "mask \<Rightarrow> mask \<Rightarrow> bool" where
  "mask_le m m' \<longleftrightarrow> list_all2 (list_all2 (\<le>)) m m'"

text \<open>
  The blur keeps the shape of a mask and is monotone: a convolution with non-negative
  weights followed by rounding.
\<close>

definition blur_monotone :: "cv2 \<Rightarrow> bool" where
  "blur_monotone cv \<longleftrightarrow>
     (\<forall>k m m'. mask_le m m' \<longrightarrow> mask_le (cv_gaussian_blur cv k m) (cv_gaussian_blur cv k m'))"

text \<open>The blur of an all-zero mask is that mask.\<close>

definition blur_zero :: "cv2 \<Rightarrow> bool" where
  "blur_zero cv \<longleftrightarrow> (\<forall>k h w. cv_gaussian_blur cv k (full h w 0) = full h w 0)"

section \<open>Chroma key\<close>

text \<open>
  A float value of numpy: finite, or one of the three special values.  Finite values are
  modelled by the reals they denote; the distances of this program are square roots of
  integers up to 195075 compared with integer tolerances, where rounding to float32 does
  not change the outcome of the comparison.
\<close>

datatype fval = Fin real | PosInf | NegInf | NaN

text \<open>
  \<open>diff = np.abs(bgr_img.astype(np.int16) - target[None, None, :])\<close> and
  \<open>sq = (diff.astype(np.int32) * diff.astype(np.int32)).sum(axis=2)\<close>, one pixel: the
  pixel is in BGR order, the reference colour in RGB order.
\<close>

definition sq_dist :: "pixel \<Rightarrow> pixel \<Rightarrow> int" where
  "sq_dist px pick =
     (case px of (pb, pg, pr) \<Rightarrow>
      case pick of (r, g, b) \<Rightarrow>
        let d0 = \<bar>uint pb - uint b\<bar>; d1 = \<bar>uint pg - uint g\<bar>; d2 = \<bar>uint pr - uint r\<bar>
        in d0 * d0 + d1 * d1 + d2 * d2)"

text \<open>\<open>np.sqrt\<close>: the square root of a negative number is NaN.\<close>

definition np_sqrt :: "int \<Rightarrow> fval" where
  "np_sqrt s = (if s < 0 then NaN else Fin (sqrt (real_of_int s)))"

text \<open>\<open>np.nan_to_num(v, nan=.., posinf=.., neginf=..)\<close>\<close>

definition nan_to_num :: "fval \<Rightarrow> real \<Rightarrow> real \<Rightarrow> real \<Rightarrow> fval" where
  "nan_to_num v nan posinf neginf =
     (case v of Fin r \<Rightarrow> Fin r | PosInf \<Rightarrow> Fin posinf | NegInf \<Rightarrow> Fin neginf | NaN \<Rightarrow> Fin nan)"

text \<open>\<open>v <= tol\<close> for a float \<open>v\<close> and an integer \<open>tol\<close>: false on NaN.\<close>

definition f_le :: "fval \<Rightarrow> int \<Rightarrow> bool" where
  "f_le v tol =
     (case v of Fin r \<Rightarrow> r \<le> real_of_int tol | PosInf \<Rightarrow> False | NegInf \<Rightarrow> True | NaN \<Rightarrow> False)"

text \<open>
  Lines 1261-1262, one element:
  \<open>dist = np.nan_to_num(dist, nan=0.0, posinf=255.0, neginf=0.0)\<close> and
  \<open>m = (dist <= tol).astype(np.uint8) * 255\<close>.
\<close>

definition dist_match :: "fval \<Rightarrow> int \<Rightarrow> u8" where
  "dist_match d tol =
     (let d = nan_to_num d 0 255 0 in if f_le d tol then 255 else 0)"

text \<open>The mask \<open>m\<close> of one reference colour.\<close>

definition pick_mask :: "image \<Rightarrow> pixel \<Rightarrow> int \<Rightarrow> mask" where
  "pick_mask bgr_img pick tol =
     map (map (\<lambda>px. dist_match (np_sqrt (sq_dist px pick)) tol)) bgr_img"

text \<open>One round of the loop over \<open>(pickA, tolA)\<close> and \<open>(pickB, tolB)\<close>.\<close>

definition ref_step :: "image \<Rightarrow> mask \<Rightarrow> pixel option \<times> int \<Rightarrow> mask" where
  "ref_step bgr_img bg pt =
     (case pt of
        (None, tol) \<Rightarrow> bg
      | (Some pick, tol) \<Rightarrow> map2 (map2 max) bg (pick_mask bgr_img pick tol))"

text \<open>\<open>cv2.inRange\<close>, one pixel.\<close>

definition in_range :: "pixel \<Rightarrow> pixel \<Rightarrow> pixel \<Rightarrow> u8" where
  "in_range px lower upper =
     (case px of (a, b, c) \<Rightarrow>
      case lower of (la, lb, lc) \<Rightarrow>
      case upper of (ua, ub, uc) \<Rightarrow>
        if la \<le> a \<and> a \<le> ua \<and> lb \<le> b \<and> b \<le> ub \<and> lc \<le> c \<and> c \<le> uc then 255 else 0)"

text \<open>
  \<open>k = max(0, int(feather)); if k % 2 == 0: k = k + 1 if k > 0 else 0\<close>
\<close>

definition feather_ksize :: "int \<Rightarrow> int" where
  "feather_ksize f =
     (let k = max 0 f in if k mod 2 = 0 then (if k > 0 then k + 1 else 0) else k)"

text \<open>\<open>cv2.subtract\<close> on uint8 saturates at 0.\<close>

definition sat_sub :: "u8 \<Rightarrow> u8 \<Rightarrow> u8" where
  "sat_sub a b = (if b \<le> a then a - b else 0)"

text \<open>The background mask of the reference-colour branch, before feathering.\<close>

definition ref_background :: "chroma_config \<Rightarrow> image \<Rightarrow> mask" where
  "ref_background c bgr_img =
     foldl (ref_step bgr_img) (full (shape0 bgr_img) (shape1 bgr_img) 0)
       [(pickA c, tolA c), (pickB c, tolB c)]"

definition build_alpha_mask :: "cv2 \<Rightarrow> chroma_config \<Rightarrow> image \<Rightarrow> error + mask" where
  "build_alpha_mask cv c bgr_img =
     (case (if use_hsv c then
              (if shape0 bgr_img < 1 \<or> shape1 bgr_img < 1 then Inl CvError
               else Inr (map (map (\<lambda>px. in_range (cv_bgr2hsv cv px)
                                      (h_min c, s_min c, v_min c)
                                      (h_max c, s_max c, v_max c))) bgr_img))
            else Inr (ref_background c bgr_img)) of
        Inl e \<Rightarrow> Inl e
      | Inr bg \<Rightarrow>
          (let k = feather_ksize (feather c) in
           case (if k \<ge> 3 then cv2_GaussianBlur cv bg k else Inr bg) of
             Inl e \<Rightarrow> Inl e
           | Inr bg \<Rightarrow> Inr (map (map (sat_sub 255)) bg)))"

section \<open>Shape mask\<close>

text \<open>
  \<open>circle_alpha_mask\<close>: \<open>np.ogrid[:size, :size]\<close> gives the row and column indices
  \<open>0 .. size - 1\<close>.  The centre and the radius are halves of integers and the squared
  distances are quarters of integers, which the floats of the source hold exactly; the
  square root is modelled by the real square root, from which the rounded one does not
  differ in the comparison with the radius at any size a window can have.
\<close>

definition circle_alpha_mask :: "int \<Rightarrow> mask" where
  "circle_alpha_mask sz =
     (let c = (real_of_int sz - 1) / 2; r = real_of_int sz / 2
      in map (\<lambda>y. map (\<lambda>x.
             if sqrt ((real_of_int x - c) ^ 2 + (real_of_int y - c) ^ 2) \<le> r then 255 else 0)
           [0..sz - 1]) [0..sz - 1])"

section \<open>Fitting to a target size\<close>

text \<open>
  Assignment to a slice, \<open>dst[y:y2, x:x2] = src\<close>.  numpy accepts a source whose length
  along an axis equals the length of the slice, or is 1 (the single row or value is
  repeated); anything else raises \<open>ValueError\<close>.
\<close>

definition bcast :: "nat \<Rightarrow> 'a list \<Rightarrow> 'a list option" where
  "bcast n xs =
     (if length xs = n then Some xs
      else (case xs of [x] \<Rightarrow> Some (replicate n x) | _ \<Rightarrow> None))"

definition assign_row :: "'a list \<Rightarrow> int \<Rightarrow> int \<Rightarrow> 'a list \<Rightarrow> 'a list option" where
  "assign_row row x x2 vals =
     (let s = slice_index (length row) x; e = max s (slice_index (length row) x2)
      in case bcast (e - s) vals of
           None \<Rightarrow> None
         | Some vs \<Rightarrow> Some (take s row @ vs @ drop e row))"

definition assign2 ::
  "'a list list \<Rightarrow> int \<Rightarrow> int \<Rightarrow> int \<Rightarrow> int \<Rightarrow> 'a list list \<Rightarrow> error + 'a list list" where
  "assign2 dst y y2 x x2 src =
     (let s = slice_index (length dst) y; e = max s (slice_index (length dst) y2)
      in case bcast (e - s) src of
           None \<Rightarrow> Inl ValueError
         | Some rows \<Rightarrow>
             (case those (map2 (\<lambda>d r. assign_row d x x2 r) (take (e - s) (drop s dst)) rows) of
                None \<Rightarrow> Inl ValueError
              | Some new \<Rightarrow> Inr (take s dst @ new @ drop e dst)))"

text \<open>
  Python floats.  A float is an IEEE 754 binary64 number, modelled by the rational it
  denotes.  Every float operation of the source is the exact operation followed by
  rounding to the nearest number with a significand of 53 bits, ties going to the even
  significand.  The exponent range is not modelled (no overflow to infinity, no
  subnormal numbers): the quotients and products of image sides are far inside it.

  \<open>bit_length\<close> is the number of binary digits of a natural number, \<open>floor_log2 q\<close> the
  exponent \<open>e\<close> with \<open>2 ^ e \<le> q < 2 ^ (e + 1)\<close> for a positive \<open>q\<close>.
\<close>

fun bit_length :: "nat \<Rightarrow> nat" where
  "bit_length n = (if n = 0 then 0 else Suc (bit_length (n div 2)))"

declare bit_length.simps [simp del]

definition floor_log2 :: "rat \<Rightarrow> int" where
  "floor_log2 q =
     (if 1 \<le> q then int (bit_length (nat (floor q))) - 1
      else - int (bit_length (nat (ceiling (1 / q) - 1))))"

definition round_half_even :: "rat \<Rightarrow> int" where
  "round_half_even x =
     (let f = floor x; d = x - of_int f
      in if d < 1 / 2 then f else if 1 / 2 < d then f + 1 else if even f then f else f + 1)"

definition round_double :: "rat \<Rightarrow> rat" where
  "round_double q =
     (if q = 0 then 0
      else
        let a = \<bar>q\<bar>; u = power_int 2 (floor_log2 a - 52)
        in sgn q * of_int (round_half_even (a / u)) * u)"

text \<open>
  \<open>a / b\<close> for integers \<open>a\<close> and \<open>b \<noteq> 0\<close> (the correctly rounded quotient), and \<open>n * x\<close>
  for an integer \<open>n\<close> and a float \<open>x\<close> (the integer is converted to a float first).
  \<open>int(x)\<close> truncates towards zero; \<open>math.ceil\<close> is the ceiling.
\<close>

definition py_truediv :: "int \<Rightarrow> int \<Rightarrow> rat" where
  "py_truediv a b = round_double (of_int a / of_int b)"

definition py_mul :: "int \<Rightarrow> rat \<Rightarrow> rat" where
  "py_mul n x = round_double (round_double (of_int n) * x)"

definition py_int :: "rat \<Rightarrow> int" where
  "py_int q = (if q < 0 then ceiling q else floor q)"

text \<open>
  Each fit is split into the computation of the scaled size \<open>(nw, nh)\<close>, its \<open>_dims\<close>
  function, and the rest of the function from the resize on, its \<open>_sized\<close> function.
\<close>

text \<open>
  \<open>center_crop_fit\<close>:
  \<open>scale = max(W / w, H / h); nw, nh = int(ceil(w * scale)), int(ceil(h * scale))\<close>
\<close>

definition cover_dims :: "int \<Rightarrow> int \<Rightarrow> int \<Rightarrow> int \<Rightarrow> int \<times> int" where
  "cover_dims w h W H =
     (let scale = max (py_truediv W w) (py_truediv H h)
      in (ceiling (py_mul w scale), ceiling (py_mul h scale)))"

text \<open>\<open>center_crop_fit\<close> from \<open>rs = cv2.resize(...)\<close> on.\<close>

definition center_crop_fit_sized :: "cv2 \<Rightarrow> image \<Rightarrow> int \<times> int \<Rightarrow> int \<Rightarrow> int \<Rightarrow> error + image" where
  "center_crop_fit_sized cv rgb dsize W H =
     (case dsize of (nw, nh) \<Rightarrow>
      case cv2_resize cv rgb (nw, nh) INTER_AREA of
        Inl e \<Rightarrow> Inl e
      | Inr rs \<Rightarrow>
          (let x = max 0 ((nw - W) div 2); y = max 0 ((nh - H) div 2);
               x2 = min nw (x + W); y2 = min nh (y + H);
               out = slice2 y y2 x x2 rs
           in if shape0 out \<noteq> H \<or> shape1 out \<noteq> W then
                (if H < 0 \<or> W < 0 then Inl ValueError
                 else assign2 (full H W black) 0 (shape0 out) 0 (shape1 out) out)
              else Inr out))"

definition center_crop_fit :: "cv2 \<Rightarrow> image \<Rightarrow> int \<Rightarrow> int \<Rightarrow> error + image" where
  "center_crop_fit cv rgb W H =
     (let h = shape0 rgb; w = shape1 rgb
      in if w = 0 \<or> h = 0 then Inl ZeroDivisionError
         else center_crop_fit_sized cv rgb (cover_dims w h W H) W H)"

text \<open>
  \<open>letterbox\<close>:
  \<open>scale = min(W / w, H / h); nw, nh = int(w * scale), int(h * scale)\<close>
\<close>

definition letterbox_dims :: "int \<Rightarrow> int \<Rightarrow> int \<Rightarrow> int \<Rightarrow> int \<times> int" where
  "letterbox_dims w h W H =
     (let scale = min (py_truediv W w) (py_truediv H h)
      in (py_int (py_mul w scale), py_int (py_mul h scale)))"

text \<open>\<open>letterbox\<close> from \<open>resized = cv2.resize(...)\<close> on.\<close>

definition letterbox_sized :: "cv2 \<Rightarrow> image \<Rightarrow> int \<times> int \<Rightarrow> int \<Rightarrow> int \<Rightarrow> error + image" where
  "letterbox_sized cv rgb dsize W H =
     (case dsize of (nw, nh) \<Rightarrow>
      case cv2_resize cv rgb (nw, nh) INTER_AREA of
        Inl e \<Rightarrow> Inl e
      | Inr resized \<Rightarrow>
          (if H < 0 \<or> W < 0 then Inl ValueError
           else
             let out = full H W black;
                 x = (W - nw) div 2; y = (H - nh) div 2
             in assign2 out y (y + nh) x (x + nw) resized))"

definition letterbox :: "cv2 \<Rightarrow> image \<Rightarrow> int \<Rightarrow> int \<Rightarrow> error + image" where
  "letterbox cv rgb W H =
     (let h = shape0 rgb; w = shape1 rgb
      in if w = 0 \<or> h = 0 then Inl ZeroDivisionError
         else letterbox_sized cv rgb (letterbox_dims w h W H) W H)"

section \<open>The tick\<close>

text \<open>\<open>cv2.flip(a, 1)\<close>, \<open>cv2.cvtColor(a, cv2.COLOR_BGR2RGB)\<close> and \<open>np.dstack((rgb, alpha))\<close>.\<close>

definition flip1 :: "'a list list \<Rightarrow> 'a list list" where
  "flip1 a = map rev a"

definition bgr2rgb :: "image \<Rightarrow> image" where
  "bgr2rgb a = map (map (\<lambda>(b, g, r). (r, g, b))) a"

definition dstack :: "image \<Rightarrow> mask \<Rightarrow> rgba_image" where
  "dstack rgb alpha = map2 (map2 (\<lambda>(r, g, b) a. (r, g, b, a))) rgb alpha"

text \<open>
  Lines 1195-1199: the size the frame is scaled to so that it covers the square window.
\<close>

definition window_dims :: "int \<Rightarrow> int \<Rightarrow> int \<Rightarrow> int \<times> int" where
  "window_dims w h target =
     (let scale = max (py_truediv target (max 1 w)) (py_truediv target (max 1 h));
          nw = ceiling (py_mul w scale); nh = ceiling (py_mul h scale)
      in (if nw < 1 then 1 else nw, if nh < 1 then 1 else nh))"

text \<open>Lines 1200-1207: resize, centre crop, zero padding.\<close>

definition window_roi_sized :: "cv2 \<Rightarrow> image \<Rightarrow> int \<times> int \<Rightarrow> int \<Rightarrow> error + image" where
  "window_roi_sized cv disp dsize target =
     (case cv2_resize cv disp dsize INTER_LINEAR of
        Inl e \<Rightarrow> Inl e
      | Inr rs \<Rightarrow>
          (let start_x = max 0 ((shape1 rs - target) div 2);
               start_y = max 0 ((shape0 rs - target) div 2);
               end_x = min (shape1 rs) (start_x + target);
               end_y = min (shape0 rs) (start_y + target);
               roi = slice2 start_y end_y start_x end_x rs
           in if shape0 roi \<noteq> target \<or> shape1 roi \<noteq> target then
                assign2 (full target target black) 0 (shape0 roi) 0 (shape1 roi) roi
              else Inr roi))"

text \<open>
  Lines 1183-1221: from the frame to the square region and the window's RGBA image.
\<close>

definition window_image :: "cv2 \<Rightarrow> round_cam_window \<Rightarrow> image \<Rightarrow> error + image \<times> rgba_image" where
  "window_image cv self frame =
     (let src = crop_step (crop self) frame;
          disp = (if window_mirror (state self) then flip1 src else src);
          target = max 1 (width self)
      in case window_roi_sized cv disp (window_dims (shape1 disp) (shape0 disp) target) target of
           Inl e \<Rightarrow> Inl e
         | Inr roi \<Rightarrow>
             (case (if chroma_enabled (chroma self) then build_alpha_mask cv (chroma self) roi
                    else Inr (full (shape0 roi) (shape1 roi) 255)) of
                Inl e \<Rightarrow> Inl e
              | Inr alpha \<Rightarrow>
                  (let shape_mask =
                         (if window_shape (state self) = Circle then circle_alpha_mask (shape1 roi)
                          else full (shape0 roi) (shape1 roi) 255);
                       alpha = composite alpha shape_mask;
                       rgb = bgr2rgb roi
                   in Inr (roi, dstack rgb alpha))))"

text \<open>Lines 1228-1237: the frame for the virtual camera, from the square region.\<close>

definition vcam_frame :: "cv2 \<Rightarrow> round_cam_window \<Rightarrow> image \<Rightarrow> error + image" where
  "vcam_frame cv self roi =
     (let vframe = (if vcam_mirror (state self) then flip1 roi else roi);
          vframe_rgb = bgr2rgb vframe
      in if vcam_fit (state self) = Fill
         then center_crop_fit cv vframe_rgb (vcam_w self) (vcam_h self)
         else letterbox cv vframe_rgb (vcam_w self) (vcam_h self))"

text \<open>
  \<open>on_tick\<close>.  The arguments besides the window are what the outside world does in
  this tick: the pair \<open>(ok, frame)\<close> that \<open>self.cap.read()\<close> returns, and whether the
  virtual camera accepts the frame sent to it.  An exception anywhere in the body is
  caught and logged; what the body assigned before it stays assigned.
\<close>

definition on_tick ::
  "cv2 \<Rightarrow> round_cam_window \<Rightarrow> bool \<times> image option \<Rightarrow> bool \<Rightarrow> round_cam_window" where
  "on_tick cv self rd send_ok =
     (if \<not> cap_opened self then self
      else
        (case (if fst rd then snd rd else None) of
           None \<Rightarrow>
             (let n = no_frame_count self + 1;
                  self = self\<lparr>no_frame_count := n\<rparr>
              in if n = 1 \<or> n = 10 \<or> n = 50 \<or> n mod 100 = 0
                 then self\<lparr>log := log self @ [NoFrameWarning n]\<rparr>
                 else self)
         | Some frame \<Rightarrow>
             (let self =
                    (if no_frame_count self \<noteq> 0
                     then self\<lparr>log := log self @ [FramesRecovered (no_frame_count self)],
                               no_frame_count := 0\<rparr>
                     else self);
                  self = self\<lparr>last_frame_bgr := Some frame\<rparr>
              in case window_image cv self frame of
                   Inl e \<Rightarrow> self\<lparr>log := log self @ [TickException e]\<rparr>
                 | Inr (roi, argb) \<Rightarrow>
                     (let self = self\<lparr>current_qpix := Some argb\<rparr>
                      in if vcam self then
                           (case vcam_frame cv self roi of
                              Inl e \<Rightarrow> self\<lparr>log := log self @ [TickException e]\<rparr>
                            | Inr out \<Rightarrow>
                                if send_ok then self\<lparr>vcam_out := Some out\<rparr>
                                else self\<lparr>log := log self @ [VcamSendError], vcam := False\<rparr>)
                         else self))))"

text \<open>The window after a sequence of ticks, each with its read result.\<close>

definition ticks ::
  "cv2 \<Rightarrow> round_cam_window \<Rightarrow> (bool \<times> image option) list \<Rightarrow> round_cam_window" where
  "ticks cv self rds = foldl (\<lambda>s rd. on_tick cv s rd True) self rds"

section \<open>Sample inputs\<close>

text \<open>A 2 by 2 frame with pairwise different pixels.\<close>

definition frame_2x2 :: image where
  "frame_2x2 = [[(1, 2, 3), (4, 5, 6)], [(7, 8, 9), (10, 11, 12)]]"

text \<open>
  An instance of the OpenCV parameter: nearest-neighbour resize, a blur that returns its
  argument, and a colour conversion that returns its argument.
\<close>

definition resize_nearest :: "interpolation \<Rightarrow> image \<Rightarrow> nat \<Rightarrow> nat \<Rightarrow> image" where
  "resize_nearest interp src nw nh =
     map (\<lambda>y. map (\<lambda>x. src ! (y * length src div nh) ! (x * length (hd src) div nw)) [0..<nw])
       [0..<nh]"

definition cv_sample :: cv2 where
  "cv_sample =
     \<lparr>cv_resize = resize_nearest, cv_gaussian_blur = (\<lambda>k m. m), cv_bgr2hsv = (\<lambda>px. px)\<rparr>"

text \<open>
  Chroma settings with reference colour A set to RGB \<open>(3, 2, 1)\<close>, the colour of the first
  pixel of \<open>frame_2x2\<close> (which is in BGR order), tolerance 0 and no feathering.
\<close>

definition chroma_pick :: chroma_config where
  "chroma_pick = default_chroma\<lparr>pickA := Some (3, 2, 1), tolA := 0, feather := 0\<rparr>"

section \<open>Properties\<close>

subsection \<open>Shapes and slices\<close>

lemma has_shape_nth:
  "has_shape h w a \<Longrightarrow> y < h \<Longrightarrow> length (a ! y) = w"
  by (simp add: has_shape_def list_all_length)

lemma has_shape_shape0:
  "has_shape h w a \<Longrightarrow> shape0 a = int h"
  by (simp add: has_shape_def shape0_def)

lemma has_shape_shape1:
  "has_shape h w a \<Longrightarrow> 0 < h \<Longrightarrow> shape1 a = int w"
  by (cases a) (simp_all add: has_shape_def shape1_def)

lemma py_slice_inside:
  "0 \<le> i \<Longrightarrow> i \<le> j \<Longrightarrow> j \<le> int (length xs) \<Longrightarrow>
   py_slice i j xs = take (nat (j - i)) (drop (nat i) xs)"
proof -
  assume "0 \<le> i" "i \<le> j" "j \<le> int (length xs)"
  then have "slice_index (length xs) i = nat i" "slice_index (length xs) j = nat j"
    by (simp_all add: slice_index_def)
  moreover have "nat j - nat i = nat (j - i)"
    using \<open>0 \<le> i\<close> \<open>i \<le> j\<close> by simp
  ultimately show ?thesis
    by (simp add: py_slice_def Let_def)
qed

lemma length_py_slice_inside:
  "0 \<le> i \<Longrightarrow> i \<le> j \<Longrightarrow> j \<le> int (length xs) \<Longrightarrow>
   length (py_slice i j xs) = nat (j - i)"
  by (simp add: py_slice_inside)

lemma nth_py_slice_inside:
  "0 \<le> i \<Longrightarrow> i \<le> j \<Longrightarrow> j \<le> int (length xs) \<Longrightarrow> k < nat (j - i) \<Longrightarrow>
   py_slice i j xs ! k = xs ! (nat i + k)"
  by (simp add: py_slice_inside)

lemma has_shape_slice2:
  assumes "has_shape h w a"
    and "0 \<le> y" "y \<le> y2" "y2 \<le> int h"
    and "0 \<le> x" "x \<le> x2" "x2 \<le> int w"
  shows "has_shape (nat (y2 - y)) (nat (x2 - x)) (slice2 y y2 x x2 a)"
proof -
  have len: "length a = h" and rows: "\<forall>r \<in> set a. length r = w"
    using assms(1) by (simp_all add: has_shape_def list_all_iff)
  have "length (py_slice y y2 a) = nat (y2 - y)"
    using assms len by (simp add: length_py_slice_inside)
  moreover have "\<forall>r \<in> set (py_slice y y2 a). length (py_slice x x2 r) = nat (x2 - x)"
  proof
    fix r assume "r \<in> set (py_slice y y2 a)"
    then have "r \<in> set a"
      unfolding py_slice_def Let_def by (meson in_set_dropD in_set_takeD)
    then have "length r = w" using rows by simp
    then show "length (py_slice x x2 r) = nat (x2 - x)"
      using assms by (simp add: length_py_slice_inside)
  qed
  ultimately show ?thesis
    by (simp add: has_shape_def slice2_def list_all_iff)
qed

subsection \<open>Window scaling stays in range\<close>

lemma clamp_bounds:
  "lo \<le> hi \<Longrightarrow> lo \<le> clamp v lo hi \<and> clamp v lo hi \<le> hi"
  by (simp add: clamp_def)

lemma scale_circle_diameter:
  "circle_diameter (state (scale_circle self d)) = clamp (circle_diameter (state self) + 20 * d) 120 1080"
  by (simp add: scale_circle_def Let_def)

lemma scale_circle_width:
  "width (scale_circle self d) = circle_diameter (state (scale_circle self d))"
  by (simp add: scale_circle_def Let_def)

lemma scale_circle_calls_snoc:
  "scale_circle_calls self (ds @ [d]) = scale_circle (scale_circle_calls self ds) d"
  by (simp add: scale_circle_calls_def)

lemma scale_circle_calls_range:
  "120 \<le> circle_diameter (state self) \<Longrightarrow> circle_diameter (state self) \<le> 1080 \<Longrightarrow>
   120 \<le> circle_diameter (state (scale_circle_calls self ds)) \<and>
   circle_diameter (state (scale_circle_calls self ds)) \<le> 1080"
proof (induction ds rule: rev_induct)
  case Nil
  then show ?case by (simp add: scale_circle_calls_def)
next
  case (snoc d ds)
  show ?case
    unfolding scale_circle_calls_snoc scale_circle_diameter
    using clamp_bounds [of 120 1080] by simp
qed

lemma scale_circle_step:
  "120 \<le> circle_diameter (state self) \<Longrightarrow> circle_diameter (state self) \<le> 1080 \<Longrightarrow>
   d = 1 \<or> d = -1 \<Longrightarrow>
   \<bar>circle_diameter (state (scale_circle self d)) - circle_diameter (state self)\<bar> \<le> 20"
  by (auto simp: scale_circle_diameter clamp_def)

text \<open>
  C10.  Starting from a diameter in 120..1080, after every call of a sequence of
  \<open>scale_circle(+1)\<close> and \<open>scale_circle(-1)\<close> calls (that is, after every prefix of the
  sequence) the diameter is again in 120..1080; each call changes it by at most 20; and
  after each call the widget's side length equals the diameter, so it is positive and at
  most 1080.
\<close>

theorem scale_circle_invariant:
  assumes "120 \<le> circle_diameter (state self)"
    and "circle_diameter (state self) \<le> 1080"
    and "list_all (\<lambda>d. d = 1 \<or> d = -1) ds"
    and "n < length ds"
  shows "120 \<le> circle_diameter (state (scale_circle_calls self (take (Suc n) ds)))
    \<and> circle_diameter (state (scale_circle_calls self (take (Suc n) ds))) \<le> 1080
    \<and> \<bar>circle_diameter (state (scale_circle_calls self (take (Suc n) ds)))
          - circle_diameter (state (scale_circle_calls self (take n ds)))\<bar> \<le> 20
    \<and> width (scale_circle_calls self (take (Suc n) ds))
          = circle_diameter (state (scale_circle_calls self (take (Suc n) ds)))
    \<and> 0 < width (scale_circle_calls self (take (Suc n) ds))
    \<and> width (scale_circle_calls self (take (Suc n) ds)) \<le> 1080"
proof -
  let ?before = "scale_circle_calls self (take n ds)"
  let ?after = "scale_circle_calls self (take (Suc n) ds)"
  have step: "?after = scale_circle ?before (ds ! n)"
    using assms(4) by (simp add: take_Suc_conv_app_nth scale_circle_calls_snoc)
  have dir: "ds ! n = 1 \<or> ds ! n = -1"
    using assms(3,4) by (simp add: list_all_length)
  have before: "120 \<le> circle_diameter (state ?before) \<and> circle_diameter (state ?before) \<le> 1080"
    using assms(1,2) by (rule scale_circle_calls_range)
  have after: "120 \<le> circle_diameter (state ?after) \<and> circle_diameter (state ?after) \<le> 1080"
    using assms(1,2) by (rule scale_circle_calls_range)
  have diff: "\<bar>circle_diameter (state ?after) - circle_diameter (state ?before)\<bar> \<le> 20"
    unfolding step using before dir by (intro scale_circle_step) simp_all
  have w: "width ?after = circle_diameter (state ?after)"
    unfolding step by (rule scale_circle_width)
  show ?thesis
    using after diff w by simp
qed

lemma default_window_diameter:
  "circle_diameter (state default_window) = 360"
  by (simp add: default_window_def default_state_def)

lemma scale_circle_calls_Cons:
  "scale_circle_calls self (d # ds) = scale_circle_calls (scale_circle self d) ds"
  by (simp add: scale_circle_calls_def)

lemma scale_circle_calls_Nil:
  "scale_circle_calls self [] = self"
  by (simp add: scale_circle_calls_def)

text \<open>
  Witness for C10: from the default diameter 360, the calls \<open>+1, +1, -1\<close>; the third
  call takes the diameter from 400 to 380.
\<close>

theorem scale_circle_invariant_witness:
  "120 \<le> circle_diameter (state default_window)
   \<and> circle_diameter (state default_window) \<le> 1080
   \<and> list_all (\<lambda>d. d = 1 \<or> d = -1) [1, 1, -1 :: int]
   \<and> (2 :: nat) < length [1, 1, -1 :: int]
   \<and> circle_diameter (state (scale_circle_calls default_window [1, 1])) = 400
   \<and> circle_diameter (state (scale_circle_calls default_window [1, 1, -1])) = 380
   \<and> width (scale_circle_calls default_window [1, 1, -1]) = 380"
proof -
  have h1: "120 \<le> circle_diameter (state default_window)"
    and h2: "circle_diameter (state default_window) \<le> 1080"
    by (simp_all add: default_window_diameter)
  have h3: "list_all (\<lambda>d. d = 1 \<or> d = -1) [1, 1, -1 :: int]" by simp
  have h4: "(2 :: nat) < length [1, 1, -1 :: int]" by simp
  note inv = scale_circle_invariant [OF h1 h2 h3 h4]
  have "circle_diameter (state (scale_circle_calls default_window [1, 1])) = 400"
    by (simp add: scale_circle_calls_Cons scale_circle_calls_Nil scale_circle_diameter
        default_window_diameter clamp_def)
  moreover have "circle_diameter (state (scale_circle_calls default_window [1, 1, -1])) = 380"
    by (simp add: scale_circle_calls_Cons scale_circle_calls_Nil scale_circle_diameter
        default_window_diameter clamp_def)
  ultimately show ?thesis
    using inv h1 h2 by (simp add: numeral_2_eq_2 numeral_3_eq_3)
qed

subsection \<open>Crop step\<close>

lemma clamp_rect_valid:
  assumes "has_shape fh fw src" "0 < fh" "0 < fw"
    and "clamp_rect src (x, y, w, h) = (x2, y2, w2, h2)"
  shows "0 \<le> x2 \<and> 0 \<le> y2 \<and> 1 \<le> w2 \<and> 1 \<le> h2
       \<and> x2 + w2 \<le> int fw \<and> y2 + h2 \<le> int fh"
proof -
  have s0: "shape0 src = int fh" and s1: "shape1 src = int fw"
    using assms(1,2) by (simp_all add: has_shape_shape0 has_shape_shape1)
  have x2: "x2 = clamp x 0 (int fw - 1)" and y2: "y2 = clamp y 0 (int fh - 1)"
    using assms(4) by (simp_all add: clamp_rect_def Let_def s0 s1)
  have w2: "w2 = clamp w 1 (int fw - x2)" and h2: "h2 = clamp h 1 (int fh - y2)"
    using assms(4) by (auto simp: clamp_rect_def Let_def s0 s1)
  have bx: "0 \<le> x2 \<and> x2 \<le> int fw - 1"
    unfolding x2 using assms(3) by (intro clamp_bounds) simp
  have "by": "0 \<le> y2 \<and> y2 \<le> int fh - 1"
    unfolding y2 using assms(2) by (intro clamp_bounds) simp
  have bw: "1 \<le> w2 \<and> w2 \<le> int fw - x2"
    unfolding w2 using bx by (intro clamp_bounds) simp
  have bh: "1 \<le> h2 \<and> h2 \<le> int fh - y2"
    unfolding h2 using "by" by (intro clamp_bounds) simp
  show ?thesis using bx "by" bw bh by simp
qed

lemma crop_step_rect:
  "crop_step \<lparr>crop_enabled = True, rect = Some r\<rparr> src =
     (case clamp_rect src r of (x2, y2, w2, h2) \<Rightarrow> slice2 y2 (y2 + h2) x2 (x2 + w2) src)"
  by (simp add: crop_step_def)

lemma nth_slice2:
  assumes "has_shape h w a"
    and "0 \<le> y" "y \<le> y2" "y2 \<le> int h"
    and "0 \<le> x" "x \<le> x2" "x2 \<le> int w"
    and "i < nat (y2 - y)" "j < nat (x2 - x)"
  shows "slice2 y y2 x x2 a ! i ! j = a ! (nat y + i) ! (nat x + j)"
proof -
  have len: "length a = h" using assms(1) by (simp add: has_shape_def)
  have i: "i < length (py_slice y y2 a)"
    using assms len by (simp add: length_py_slice_inside)
  have row: "py_slice y y2 a ! i = a ! (nat y + i)"
    using assms len by (simp add: nth_py_slice_inside)
  have "nat y + i < h" using assms by linarith
  then have "length (a ! (nat y + i)) = w"
    using assms(1) by (simp add: has_shape_nth)
  then have "py_slice x x2 (a ! (nat y + i)) ! j = a ! (nat y + i) ! (nat x + j)"
    using assms by (simp add: nth_py_slice_inside)
  then show ?thesis
    using i row by (simp add: slice2_def)
qed

lemma crop_step_sub_image:
  assumes "has_shape fh fw src" "0 < fh" "0 < fw"
    and "clamp_rect src (x, y, w, h) = (x2, y2, w2, h2)"
  shows "has_shape (nat h2) (nat w2) (crop_step \<lparr>crop_enabled = True, rect = Some (x, y, w, h)\<rparr> src)"
    and "i < nat h2 \<Longrightarrow> j < nat w2 \<Longrightarrow>
         crop_step \<lparr>crop_enabled = True, rect = Some (x, y, w, h)\<rparr> src ! i ! j
           = src ! (nat y2 + i) ! (nat x2 + j)"
proof -
  note v = clamp_rect_valid [OF assms]
  have v1: "0 \<le> y2" "y2 \<le> y2 + h2" "y2 + h2 \<le> int fh"
    and v2: "0 \<le> x2" "x2 \<le> x2 + w2" "x2 + w2 \<le> int fw"
    using v by simp_all
  have eq: "crop_step \<lparr>crop_enabled = True, rect = Some (x, y, w, h)\<rparr> src
              = slice2 y2 (y2 + h2) x2 (x2 + w2) src"
    by (simp add: crop_step_rect assms(4))
  have "has_shape (nat (y2 + h2 - y2)) (nat (x2 + w2 - x2)) (slice2 y2 (y2 + h2) x2 (x2 + w2) src)"
    using assms(1) v1 v2 by (rule has_shape_slice2)
  then show "has_shape (nat h2) (nat w2) (crop_step \<lparr>crop_enabled = True, rect = Some (x, y, w, h)\<rparr> src)"
    by (simp add: eq)
  show "crop_step \<lparr>crop_enabled = True, rect = Some (x, y, w, h)\<rparr> src ! i ! j
           = src ! (nat y2 + i) ! (nat x2 + j)" if "i < nat h2" "j < nat w2"
    unfolding eq using assms(1) v1 v2 that by (intro nth_slice2) simp_all
qed

lemma has_shape_full:
  "0 \<le> h \<Longrightarrow> 0 \<le> w \<Longrightarrow> has_shape (nat h) (nat w) (full h w v)"
  by (simp add: has_shape_def full_def list_all_iff)

text \<open>
  C3.  For a frame with positive width and height and every integer rect \<open>(x, y, w, h)\<close>,
  the clamped rect \<open>(x2, y2, w2, h2)\<close> has \<open>x2 \<ge> 0\<close>, \<open>y2 \<ge> 0\<close>, \<open>w2 \<ge> 1\<close>, \<open>h2 \<ge> 1\<close>,
  \<open>x2 + w2\<close> at most the frame's width and \<open>y2 + h2\<close> at most its height; the crop
  step returns the sub-image of exactly \<open>h2\<close> rows and \<open>w2\<close> columns whose pixels are
  the frame's pixels at offset \<open>(y2, x2)\<close>.  The step has no failing branch.
\<close>

theorem crop_step_clamps:
  assumes "has_shape fh fw src" and "0 < fh" and "0 < fw"
    and "clamp_rect src (x, y, w, h) = (x2, y2, w2, h2)"
  shows "0 \<le> x2 \<and> 0 \<le> y2 \<and> 1 \<le> w2 \<and> 1 \<le> h2
       \<and> x2 + w2 \<le> int fw \<and> y2 + h2 \<le> int fh
       \<and> has_shape (nat h2) (nat w2)
            (crop_step \<lparr>crop_enabled = True, rect = Some (x, y, w, h)\<rparr> src)
       \<and> (\<forall>i j. i < nat h2 \<and> j < nat w2 \<longrightarrow>
            crop_step \<lparr>crop_enabled = True, rect = Some (x, y, w, h)\<rparr> src ! i ! j
              = src ! (nat y2 + i) ! (nat x2 + j))"
  using clamp_rect_valid [OF assms] crop_step_sub_image [OF assms] by simp

lemma shape0_full:
  "shape0 (full h w v) = int (nat h)"
  by (simp add: shape0_def full_def)

lemma shape1_full:
  "0 < h \<Longrightarrow> shape1 (full h w v) = int (nat w)"
  by (cases "nat h") (simp_all add: shape1_def full_def)

text \<open>
  Witness for C3, the spec's scenario: a 640 by 480 frame and the rect
  \<open>(1000, 1000, 50, 50)\<close>, which lies entirely outside it.  The clamped rect is the
  bottom-right pixel \<open>(639, 479, 1, 1)\<close>.
\<close>

theorem crop_step_clamps_witness:
  "has_shape 480 640 (full 480 640 black)
   \<and> clamp_rect (full 480 640 black) (1000, 1000, 50, 50) = (639, 479, 1, 1)
   \<and> has_shape 1 1
        (crop_step \<lparr>crop_enabled = True, rect = Some (1000, 1000, 50, 50)\<rparr> (full 480 640 black))
   \<and> crop_step \<lparr>crop_enabled = True, rect = Some (1000, 1000, 50, 50)\<rparr> (full 480 640 black) ! 0 ! 0
        = full 480 640 black ! 479 ! 639"
proof -
  have h1: "has_shape 480 640 (full 480 640 black)"
    using has_shape_full [of 480 640 black] by simp
  have h2: "(0 :: nat) < 480" and h3: "(0 :: nat) < 640" by simp_all
  have h4: "clamp_rect (full 480 640 black) (1000, 1000, 50, 50) = (639, 479, 1, 1)"
    by (simp add: clamp_rect_def shape0_full shape1_full clamp_def)
  show ?thesis
    using crop_step_clamps [OF h1 h2 h3 h4] h1 h4 by simp
qed


subsection \<open>Alpha composition\<close>

lemma uint_u8_le: "uint (a :: u8) \<le> 255"
  using uint_bounded [of a] by simp

lemma uint_composite_px:
  "uint (composite_px a s) = uint a * uint s div 255"
proof -
  have le: "uint a * uint s \<le> 255 * 255"
    using uint_u8_le [of a] uint_u8_le [of s] by (intro mult_mono) simp_all
  then have p: "uint a * uint s < 65536" by simp
  have q: "uint a * uint s div 255 < 256" using le by simp
  have n: "0 \<le> uint a * uint s div 255"
    by (simp add: pos_imp_zdiv_nonneg_iff)
  have "uint ((ucast a :: 16 word) * (ucast s :: 16 word)) = uint a * uint s"
    using p by (simp add: uint_word_ariths uint_up_ucast is_up)
  then have "uint (((ucast a :: 16 word) * (ucast s :: 16 word)) div 255) = uint a * uint s div 255"
    by (simp add: uint_div)
  then show ?thesis
    unfolding composite_px_def using q n
    by (simp add: unsigned_ucast_eq take_bit_eq_mod)
qed

lemma composite_px_full:
  assumes "composite_px a s = 255"
  shows "a = 255 \<and> s = 255"
proof -
  have "uint (composite_px a s) = 255" using assms by simp
  then have d: "uint a * uint s div 255 = 255" by (simp add: uint_composite_px)
  have a: "0 \<le> uint a" "uint a \<le> 255" and s: "0 \<le> uint s" "uint s \<le> 255"
    by (simp_all add: uint_u8_le)
  have ge: "255 * 255 \<le> uint a * uint s"
  proof (rule ccontr)
    assume "\<not> 255 * 255 \<le> uint a * uint s"
    then have "uint a * uint s < 255 * 255" by simp
    then have "uint a * uint s div 255 < 255"
      by (simp add: div_less_iff_less_mult)
    then show False using d by simp
  qed
  have "uint a = 255"
  proof (rule ccontr)
    assume "uint a \<noteq> 255"
    then have "uint a \<le> 254" using a by simp
    then have "uint a * uint s \<le> 254 * 255"
      using s a by (intro mult_mono) simp_all
    then show False using ge by simp
  qed
  moreover have "uint s = 255"
  proof (rule ccontr)
    assume "uint s \<noteq> 255"
    then have "uint s \<le> 254" using s by simp
    then have "uint a * uint s \<le> 255 * 254"
      using s a by (intro mult_mono) simp_all
    then show False using ge by simp
  qed
  ultimately have "uint a = uint (255 :: u8)" "uint s = uint (255 :: u8)" by simp_all
  then show ?thesis by (simp only: word_uint_eq_iff) 
qed

lemma composite_px_zero:
  "a = 0 \<or> s = 0 \<Longrightarrow> composite_px a s = 0"
  by (auto simp: composite_px_def)

lemma composite_nth:
  assumes "has_shape h w alpha" "has_shape h w shape_mask" "y < h" "x < w"
  shows "composite alpha shape_mask ! y ! x = composite_px (alpha ! y ! x) (shape_mask ! y ! x)"
proof -
  have "length alpha = h" "length shape_mask = h"
    using assms by (simp_all add: has_shape_def)
  moreover have "length (alpha ! y) = w" "length (shape_mask ! y) = w"
    using assms by (simp_all add: has_shape_nth)
  ultimately show ?thesis
    using assms(3,4) by (simp add: composite_def)
qed

lemma has_shape_composite:
  assumes "has_shape h w alpha" "has_shape h w shape_mask"
  shows "has_shape h w (composite alpha shape_mask)"
proof -
  have "length alpha = h" "length shape_mask = h"
    using assms by (simp_all add: has_shape_def)
  moreover have "length (alpha ! y) = w" "length (shape_mask ! y) = w" if "y < h" for y
    using assms that by (simp_all add: has_shape_nth)
  ultimately show ?thesis
    by (simp add: has_shape_def composite_def list_all_length)
qed

text \<open>
  C1.  For the chroma alpha mask and the shape mask of one tick, both of the region's
  shape, the composited mask has that shape and at every pixel \<open>p\<close>: its value is
  \<open>alpha[p] * shapeMask[p]\<close> integer-divided by 255 (the 16-bit product does not wrap);
  it is 255 only if \<open>alpha[p]\<close> and \<open>shapeMask[p]\<close> are both 255; it is 0 whenever
  \<open>alpha[p]\<close> or \<open>shapeMask[p]\<close> is 0; and it lies in 0..255.
\<close>

theorem composite_law:
  assumes "has_shape h w alpha" and "has_shape h w shape_mask"
    and "y < h" and "x < w"
  shows "has_shape h w (composite alpha shape_mask)
       \<and> uint (composite alpha shape_mask ! y ! x)
           = uint (alpha ! y ! x) * uint (shape_mask ! y ! x) div 255
       \<and> (composite alpha shape_mask ! y ! x = 255
            \<longrightarrow> alpha ! y ! x = 255 \<and> shape_mask ! y ! x = 255)
       \<and> (alpha ! y ! x = 0 \<or> shape_mask ! y ! x = 0
            \<longrightarrow> composite alpha shape_mask ! y ! x = 0)
       \<and> 0 \<le> uint (composite alpha shape_mask ! y ! x)
       \<and> uint (composite alpha shape_mask ! y ! x) \<le> 255"
proof -
  let ?a = "alpha ! y ! x" and ?s = "shape_mask ! y ! x"
  note nth = composite_nth [OF assms]
  have shape: "has_shape h w (composite alpha shape_mask)"
    using assms(1,2) by (rule has_shape_composite)
  have opaque: "composite_px ?a ?s = 255 \<longrightarrow> ?a = 255 \<and> ?s = 255"
    using composite_px_full [of ?a ?s] by blast
  have clear: "?a = 0 \<or> ?s = 0 \<longrightarrow> composite_px ?a ?s = 0"
    using composite_px_zero [of ?a ?s] by blast
  have lo: "0 \<le> uint (composite_px ?a ?s)" by simp
  have hi: "uint (composite_px ?a ?s) \<le> 255" by (rule uint_u8_le)
  show ?thesis
    unfolding nth
    using shape opaque clear lo hi uint_composite_px [of ?a ?s] by blast
qed

text \<open>
  Witness for C1: a 1 by 3 region with a fully opaque, a half opaque and a keyed-out
  chroma value, under a shape mask that is opaque except at the middle pixel.
\<close>

theorem composite_law_witness:
  "has_shape 1 3 [[255, 128, 0 :: u8]] \<and> has_shape 1 3 [[255, 0, 255 :: u8]]
   \<and> composite [[255, 128, 0]] [[255, 0, 255]] = [[255, 0, 0]]
   \<and> uint (composite [[255, 128, 0]] [[255, 0, 255]] ! 0 ! 0) = 255 * 255 div 255"
proof -
  have h1: "has_shape 1 3 [[255, 128, 0 :: u8]]" and h2: "has_shape 1 3 [[255, 0, 255 :: u8]]"
    by (simp_all add: has_shape_def)
  have h3: "(0 :: nat) < 1" and h4: "(0 :: nat) < 3" by simp_all
  have "composite [[255, 128, 0]] [[255, 0, 255]] = [[255, 0, 0]]"
    by (simp add: composite_def composite_px_def)
  then show ?thesis
    using composite_law [OF h1 h2 h3 h4] h1 h2 by simp
qed

subsection \<open>Shape mask\<close>

lemma sqrt_le_iff_sq:
  "0 \<le> r \<Longrightarrow> sqrt a \<le> r \<longleftrightarrow> a \<le> r ^ 2"
proof -
  assume r: "0 \<le> r"
  have "sqrt a \<le> r \<longleftrightarrow> sqrt a \<le> sqrt (r ^ 2)" using r by simp
  also have "\<dots> \<longleftrightarrow> a \<le> r ^ 2" by (rule real_sqrt_le_iff)
  finally show ?thesis .
qed

lemma length_circle_alpha_mask:
  "length (circle_alpha_mask sz) = nat sz"
  by (simp add: circle_alpha_mask_def Let_def)

lemma nth_circle_alpha_mask:
  assumes "y < nat sz" "x < nat sz"
  shows "circle_alpha_mask sz ! y ! x =
     (if sqrt ((real x - (real_of_int sz - 1) / 2) ^ 2 + (real y - (real_of_int sz - 1) / 2) ^ 2)
           \<le> real_of_int sz / 2 then 255 else 0)"
  using assms by (simp add: circle_alpha_mask_def Let_def)

lemma has_shape_circle_alpha_mask:
  "has_shape (nat sz) (nat sz) (circle_alpha_mask sz)"
  by (simp add: has_shape_def circle_alpha_mask_def Let_def list_all_iff)

text \<open>
  C7.  For every positive size the circular shape mask is a size by size array; its
  entry at row \<open>y\<close>, column \<open>x\<close> is 255 if and only if the Euclidean distance from
  \<open>(x, y)\<close> to the centre \<open>((size - 1) / 2, (size - 1) / 2)\<close> is at most \<open>size / 2\<close>, and 0
  otherwise.
\<close>

theorem circle_alpha_mask_spec:
  assumes "0 < sz" and "y < nat sz" and "x < nat sz"
  shows "has_shape (nat sz) (nat sz) (circle_alpha_mask sz)
       \<and> (circle_alpha_mask sz ! y ! x = 255 \<longleftrightarrow>
            sqrt ((real x - (real_of_int sz - 1) / 2) ^ 2 + (real y - (real_of_int sz - 1) / 2) ^ 2)
              \<le> real_of_int sz / 2)
       \<and> (\<not> sqrt ((real x - (real_of_int sz - 1) / 2) ^ 2 + (real y - (real_of_int sz - 1) / 2) ^ 2)
              \<le> real_of_int sz / 2 \<longrightarrow> circle_alpha_mask sz ! y ! x = 0)"
  using has_shape_circle_alpha_mask [of sz] nth_circle_alpha_mask [OF assms(2,3)]
  by simp

lemma upto_0_3: "[0..3::int] = [0, 1, 2, 3]"
  by (simp add: upto_rec1)

lemma circle_4: "circle_alpha_mask 4 =
   [[0, 255, 255, 0], [255, 255, 255, 255], [255, 255, 255, 255], [0, 255, 255, 0]]"
  by (simp add: circle_alpha_mask_def Let_def sqrt_le_iff_sq power2_eq_square upto_0_3)


text \<open>
  Witness for C7: size 4, centre \<open>(1.5, 1.5)\<close>, radius 2.  The corner \<open>(0, 0)\<close> is at
  squared distance 4.5 and is outside; its neighbour \<open>(1, 0)\<close> is at 2.5 and inside.
\<close>

theorem circle_alpha_mask_spec_witness:
  "(0 :: int) < 4 \<and> (0 :: nat) < nat 4 \<and> (1 :: nat) < nat 4
   \<and> has_shape 4 4 (circle_alpha_mask 4)
   \<and> circle_alpha_mask 4 ! 0 ! 1 = 255
   \<and> sqrt ((real 1 - (real_of_int 4 - 1) / 2) ^ 2 + (real 0 - (real_of_int 4 - 1) / 2) ^ 2)
        \<le> real_of_int 4 / 2
   \<and> circle_alpha_mask 4 ! 0 ! 0 = 0"
proof -
  have h1: "(0 :: int) < 4" and h2: "(0 :: nat) < nat 4" and h3: "(1 :: nat) < nat 4"
    by simp_all
  have inside: "sqrt ((real 1 - (real_of_int 4 - 1) / 2) ^ 2 + (real 0 - (real_of_int 4 - 1) / 2) ^ 2)
        \<le> real_of_int 4 / 2"
    by (simp add: sqrt_le_iff_sq power2_eq_square)
  have corner: "circle_alpha_mask 4 ! 0 ! 0 = 0"
    by (simp add: circle_4)
  show ?thesis
    using circle_alpha_mask_spec [OF h1 h2 h3] inside corner by simp
qed

subsection \<open>Chroma key: the distance is finite\<close>



lemma dist_match_Fin:
  "dist_match (Fin r) tol = (if r \<le> real_of_int tol then 255 else 0)"
  by (simp add: dist_match_def nan_to_num_def f_le_def)


subsection \<open>Chroma key: no reference colour\<close>

lemma ref_background_unset:
  "pickA c = None \<Longrightarrow> pickB c = None \<Longrightarrow>
   ref_background c img = full (shape0 img) (shape1 img) 0"
  by (simp add: ref_background_def ref_step_def)

lemma sat_sub_255_0: "sat_sub 255 0 = 255"
  by (simp add: sat_sub_def)

lemma map_map_full:
  "map (map f) (full h w v) = full h w (f v)"
  by (simp add: full_def)

lemma cv2_GaussianBlur_full:
  "0 < h \<Longrightarrow> 0 < w \<Longrightarrow>
   cv2_GaussianBlur cv (full h w v) k = Inr (cv_gaussian_blur cv (nat k) (full h w v))"
  by (simp add: cv2_GaussianBlur_def shape0_full shape1_full)

text \<open>
  C9.  In reference-colour mode with both reference colours unset, \<open>build_alpha_mask\<close>
  returns the all-255 mask of the frame's shape for every frame of positive size and
  every feather setting, given that the blur of an all-zero mask is all zero.
\<close>

theorem build_alpha_mask_no_reference:
  assumes "has_shape h w img" and "0 < h" and "0 < w"
    and "\<not> use_hsv c" and "pickA c = None" and "pickB c = None"
    and "blur_zero cv"
  shows "build_alpha_mask cv c img = Inr (full (int h) (int w) 255)"
proof -
  have s0: "shape0 img = int h" and s1: "shape1 img = int w"
    using assms(1,2) by (simp_all add: has_shape_shape0 has_shape_shape1)
  have bg: "ref_background c img = full (int h) (int w) 0"
    using assms(5,6) by (simp add: ref_background_unset s0 s1)
  have blur: "cv2_GaussianBlur cv (full (int h) (int w) 0) k = Inr (full (int h) (int w) 0)" for k
    using assms(2,3,7) by (simp add: cv2_GaussianBlur_full blur_zero_def)
  show ?thesis
    using assms(4)
    by (simp add: build_alpha_mask_def bg blur Let_def map_map_full sat_sub_255_0)
qed

subsection \<open>Chroma key: monotone in the tolerance\<close>

lemma mask_le_refl: "mask_le m m"
  by (simp add: mask_le_def list_all2_refl)

lemma list_all2_map2:
  assumes "list_all2 P xs xs'" and "list_all2 Q ys ys'"
    and "\<And>x x' y y'. P x x' \<Longrightarrow> Q y y' \<Longrightarrow> R (f x y) (f x' y')"
  shows "list_all2 R (map2 f xs ys) (map2 f xs' ys')"
proof -
  have lx: "length xs = length xs'" and ly: "length ys = length ys'"
    using assms(1,2) by (simp_all add: list_all2_lengthD)
  show ?thesis
  proof (rule list_all2_all_nthI)
    show "length (map2 f xs ys) = length (map2 f xs' ys')"
      using lx ly by simp
  next
    fix n assume "n < length (map2 f xs ys)"
    then have n: "n < length xs" "n < length ys" by simp_all
    then have "P (xs ! n) (xs' ! n)" "Q (ys ! n) (ys' ! n)"
      using assms(1,2) by (simp_all add: list_all2_nthD)
    then have "R (f (xs ! n) (ys ! n)) (f (xs' ! n) (ys' ! n))"
      by (rule assms(3))
    then show "R (map2 f xs ys ! n) (map2 f xs' ys' ! n)"
      using n lx ly by simp
  qed
qed

lemma mask_le_max:
  assumes "mask_le a a'" and "mask_le b b'"
  shows "mask_le (map2 (map2 max) a b) (map2 (map2 max) a' b')"
proof -
  have row: "list_all2 (\<le>) (map2 max r s) (map2 max r' s')"
    if "list_all2 (\<le>) r r'" "list_all2 (\<le>) s s'" for r r' s s' :: "u8 list"
    using that by (rule list_all2_map2) (auto simp: max_def)
  show ?thesis
    using assms unfolding mask_le_def by (rule list_all2_map2) (rule row)
qed

lemma f_le_mono:
  "f_le v t \<Longrightarrow> t \<le> t' \<Longrightarrow> f_le v t'"
  by (cases v) (simp_all add: f_le_def)

lemma dist_match_mono:
  "t \<le> t' \<Longrightarrow> dist_match v t \<le> dist_match v t'"
  using f_le_mono [of "nan_to_num v 0 255 0" t t']
  by (auto simp: dist_match_def Let_def)

lemma pick_mask_mono:
  "t \<le> t' \<Longrightarrow> mask_le (pick_mask img p t) (pick_mask img p t')"
  by (simp add: mask_le_def pick_mask_def list.rel_map list_all2_refl dist_match_mono)

lemma ref_step_mono:
  assumes "mask_le m m'" and "t \<le> t'"
  shows "mask_le (ref_step img m (p, t)) (ref_step img m' (p, t'))"
proof (cases p)
  case None
  then show ?thesis using assms(1) by (simp add: ref_step_def)
next
  case (Some pick)
  then show ?thesis
    using mask_le_max [OF assms(1) pick_mask_mono [OF assms(2), of img pick]]
    by (simp add: ref_step_def)
qed

lemma ref_background_mono:
  assumes "tolA c \<le> t"
  shows "mask_le (ref_background c img) (ref_background (c\<lparr>tolA := t\<rparr>) img)"
proof -
  let ?z = "full (shape0 img) (shape1 img) (0 :: u8)"
  have a: "mask_le (ref_step img ?z (pickA c, tolA c)) (ref_step img ?z (pickA c, t))"
    using mask_le_refl assms by (rule ref_step_mono)
  have "mask_le (ref_step img (ref_step img ?z (pickA c, tolA c)) (pickB c, tolB c))
                (ref_step img (ref_step img ?z (pickA c, t)) (pickB c, tolB c))"
    using a by (rule ref_step_mono) simp
  then show ?thesis
    by (simp add: ref_background_def)
qed

lemma has_shape_map2:
  assumes "has_shape h w a" "has_shape h w b"
  shows "has_shape h w (map2 (map2 f) a b)"
proof -
  have "length a = h" "length b = h"
    using assms by (simp_all add: has_shape_def)
  moreover have "length (a ! y) = w" "length (b ! y) = w" if "y < h" for y
    using assms that by (simp_all add: has_shape_nth)
  ultimately show ?thesis
    by (simp add: has_shape_def list_all_length)
qed

lemma has_shape_map_map:
  "has_shape h w a \<Longrightarrow> has_shape h w (map (map f) a)"
  by (simp add: has_shape_def list_all_iff)

lemma has_shape_ref_step:
  assumes "has_shape h w img" "has_shape h w m"
  shows "has_shape h w (ref_step img m (p, t))"
proof (cases p)
  case None
  then show ?thesis using assms(2) by (simp add: ref_step_def)
next
  case (Some pick)
  have "has_shape h w (pick_mask img pick t)"
    unfolding pick_mask_def using assms(1) by (rule has_shape_map_map)
  with assms(2) have "has_shape h w (map2 (map2 max) m (pick_mask img pick t))"
    by (rule has_shape_map2)
  then show ?thesis using Some by (simp add: ref_step_def)
qed

lemma has_shape_ref_background:
  assumes "has_shape h w img" "0 < h"
  shows "has_shape h w (ref_background c img)"
proof -
  have s0: "shape0 img = int h" and s1: "shape1 img = int w"
    using assms by (simp_all add: has_shape_shape0 has_shape_shape1)
  have z: "has_shape h w (full (int h) (int w) (0 :: u8))"
    using has_shape_full [of "int h" "int w"] by simp
  have a: "has_shape h w (ref_step img (full (int h) (int w) 0) (pickA c, tolA c))"
    using assms(1) z by (rule has_shape_ref_step)
  have "has_shape h w (ref_step img (ref_step img (full (int h) (int w) 0) (pickA c, tolA c)) (pickB c, tolB c))"
    using assms(1) a by (rule has_shape_ref_step)
  then show ?thesis
    by (simp add: ref_background_def s0 s1)
qed

lemma sat_sub_255: "unat (sat_sub 255 b) = 255 - unat b"
proof -
  have "b \<le> 255" by (simp add: word_le_def uint_u8_le)
  then show ?thesis by (simp add: sat_sub_def unat_sub)
qed

lemma sat_sub_antimono:
  "a \<le> b \<Longrightarrow> sat_sub 255 b \<le> sat_sub 255 a"
  by (simp add: word_le_nat_alt sat_sub_255)

lemma alpha_antimono:
  assumes "mask_le m m'"
  shows "mask_le (map (map (sat_sub 255)) m') (map (map (sat_sub 255)) m)"
proof -
  have "list_all2 (list_all2 (\<lambda>x y. y \<le> x)) m' m"
    using assms unfolding mask_le_def
    by (simp add: list_all2_conv_all_nth)
  then show ?thesis
    unfolding mask_le_def list.rel_map
    by (rule list_all2_mono) (auto elim!: list_all2_mono intro: sat_sub_antimono)
qed

lemma cv2_GaussianBlur_has_shape:
  "has_shape h w m \<Longrightarrow> 0 < h \<Longrightarrow> 0 < w \<Longrightarrow>
   cv2_GaussianBlur cv m k = Inr (cv_gaussian_blur cv (nat k) m)"
  by (simp add: cv2_GaussianBlur_def has_shape_shape0 has_shape_shape1)

text \<open>
  C6.  In reference-colour mode, for every frame of positive size and tolerances
  \<open>tolA \<le> tolA'\<close> with all other settings equal, the background region computed with
  \<open>tolA'\<close> dominates pointwise the one computed with \<open>tolA\<close>; \<open>build_alpha_mask\<close>
  returns a mask for both, and the alpha mask for \<open>tolA'\<close> is pointwise at most the one
  for \<open>tolA\<close>, also after feathering, given that the blur is monotone.
\<close>

theorem alpha_monotone_in_tolA:
  assumes "has_shape h w img" and "0 < h" and "0 < w"
    and "\<not> use_hsv c" and "tolA c \<le> t" and "blur_monotone cv"
  shows "mask_le (ref_background c img) (ref_background (c\<lparr>tolA := t\<rparr>) img)
       \<and> (\<exists>a a'. build_alpha_mask cv c img = Inr a
             \<and> build_alpha_mask cv (c\<lparr>tolA := t\<rparr>) img = Inr a'
             \<and> mask_le a' a)"
proof -
  let ?c' = "c\<lparr>tolA := t\<rparr>"
  let ?b = "ref_background c img" and ?b' = "ref_background ?c' img"
  let ?k = "feather_ksize (feather c)"
  have bg: "mask_le ?b ?b'" using assms(5) by (rule ref_background_mono)
  have sh: "has_shape h w ?b" "has_shape h w ?b'"
    using assms(1,2) by (simp_all add: has_shape_ref_background)
  show ?thesis
  proof (cases "3 \<le> ?k")
    case True
    let ?f = "cv_gaussian_blur cv (nat ?k) ?b" and ?f' = "cv_gaussian_blur cv (nat ?k) ?b'"
    have bl: "cv2_GaussianBlur cv ?b ?k = Inr ?f" "cv2_GaussianBlur cv ?b' ?k = Inr ?f'"
      using sh assms(2,3) by (simp_all add: cv2_GaussianBlur_has_shape)
    have "mask_le ?f ?f'" using assms(6) bg by (simp add: blur_monotone_def)
    then have le: "mask_le (map (map (sat_sub 255)) ?f') (map (map (sat_sub 255)) ?f)"
      by (rule alpha_antimono)
    have "build_alpha_mask cv c img = Inr (map (map (sat_sub 255)) ?f)"
      using assms(4) True bl by (simp add: build_alpha_mask_def Let_def)
    moreover have "build_alpha_mask cv ?c' img = Inr (map (map (sat_sub 255)) ?f')"
      using assms(4) True bl by (simp add: build_alpha_mask_def Let_def)
    ultimately show ?thesis using bg le by simp
  next
    case False
    have le: "mask_le (map (map (sat_sub 255)) ?b') (map (map (sat_sub 255)) ?b)"
      using bg by (rule alpha_antimono)
    have "build_alpha_mask cv c img = Inr (map (map (sat_sub 255)) ?b)"
      using assms(4) False by (simp add: build_alpha_mask_def Let_def)
    moreover have "build_alpha_mask cv ?c' img = Inr (map (map (sat_sub 255)) ?b')"
      using assms(4) False by (simp add: build_alpha_mask_def Let_def)
    ultimately show ?thesis using bg le by simp
  qed
qed


subsection \<open>Chroma key on the sample frame\<close>

lemma blur_zero_sample: "blur_zero cv_sample"
  by (simp add: blur_zero_def cv_sample_def)

lemma blur_monotone_sample: "blur_monotone cv_sample"
  by (simp add: blur_monotone_def cv_sample_def)

lemma has_shape_frame_2x2: "has_shape 2 2 frame_2x2"
  by (simp add: frame_2x2_def has_shape_def)

lemma replicate_2: "replicate 2 x = [x, x]"
  by (simp add: numeral_2_eq_2)

lemma full_2_2: "full 2 2 v = [[v, v], [v, v]]"
  by (simp add: full_def replicate_2)

text \<open>
  Witness for C9: the default chroma settings (no reference colour, feather 15, so the
  blur is applied) on the 2 by 2 sample frame.
\<close>

theorem build_alpha_mask_no_reference_witness:
  "has_shape 2 2 frame_2x2 \<and> \<not> use_hsv default_chroma
   \<and> pickA default_chroma = None \<and> pickB default_chroma = None
   \<and> feather default_chroma = 15 \<and> blur_zero cv_sample
   \<and> build_alpha_mask cv_sample default_chroma frame_2x2 = Inr [[255, 255], [255, 255]]"
proof -
  have h2: "(0 :: nat) < 2" by simp
  have h4: "\<not> use_hsv default_chroma" and h5: "pickA default_chroma = None"
    and h6: "pickB default_chroma = None" and f: "feather default_chroma = 15"
    by (simp_all add: default_chroma_def)
  have "full (int 2) (int 2) (255 :: u8) = [[255, 255], [255, 255]]"
    using full_2_2 [of "255 :: u8"] by simp
  then show ?thesis
    using build_alpha_mask_no_reference [OF has_shape_frame_2x2 h2 h2 h4 h5 h6 blur_zero_sample]
      has_shape_frame_2x2 h4 h5 h6 f blur_zero_sample
    by simp
qed

lemma shape_frame_2x2: "shape0 frame_2x2 = 2" "shape1 frame_2x2 = 2"
  by (simp_all add: frame_2x2_def shape0_def shape1_def)

lemma pick_mask_frame_2x2:
  "pick_mask frame_2x2 (3, 2, 1) 0 = [[255, 0], [0, 0]]"
  "pick_mask frame_2x2 (3, 2, 1) 6 = [[255, 255], [0, 0]]"
  by (simp_all add: pick_mask_def frame_2x2_def sq_dist_def np_sqrt_def dist_match_Fin
      sqrt_le_iff_sq)

lemma ref_background_pick:
  "ref_background chroma_pick frame_2x2 = [[255, 0], [0, 0]]"
  "ref_background (chroma_pick\<lparr>tolA := 6\<rparr>) frame_2x2 = [[255, 255], [0, 0]]"
  by (simp_all add: ref_background_def ref_step_def chroma_pick_def default_chroma_def
      shape_frame_2x2 full_2_2 pick_mask_frame_2x2)

lemma pick_tol0: "build_alpha_mask cv_sample chroma_pick frame_2x2 = Inr [[0, 255], [255, 255]]"
proof -
  have "sat_sub 255 255 = 0" "sat_sub 255 0 = 255" by (simp_all add: sat_sub_def)
  moreover have "\<not> use_hsv chroma_pick" "feather chroma_pick = 0"
    by (simp_all add: chroma_pick_def default_chroma_def)
  ultimately show ?thesis
    by (simp add: build_alpha_mask_def ref_background_pick feather_ksize_def)
qed

lemma pick_tol6: "build_alpha_mask cv_sample (chroma_pick\<lparr>tolA := 6\<rparr>) frame_2x2 = Inr [[0, 0], [255, 255]]"
proof -
  have "sat_sub 255 255 = 0" "sat_sub 255 0 = 255" by (simp_all add: sat_sub_def)
  moreover have "\<not> use_hsv chroma_pick" "feather chroma_pick = 0"
    by (simp_all add: chroma_pick_def default_chroma_def)
  ultimately show ?thesis
    by (simp add: build_alpha_mask_def ref_background_pick feather_ksize_def)
qed

text \<open>
  Witness for C6: the reference colour is the first pixel of the sample frame.  At
  tolerance 0 only that pixel is background; at tolerance 6 the second pixel (distance
  \<open>sqrt 27\<close>) joins it, and the alpha mask drops from 255 to 0 there.
\<close>

theorem alpha_monotone_in_tolA_witness:
  "has_shape 2 2 frame_2x2 \<and> \<not> use_hsv chroma_pick \<and> tolA chroma_pick \<le> 6
   \<and> blur_monotone cv_sample
   \<and> build_alpha_mask cv_sample chroma_pick frame_2x2 = Inr [[0, 255], [255, 255]]
   \<and> build_alpha_mask cv_sample (chroma_pick\<lparr>tolA := 6\<rparr>) frame_2x2 = Inr [[0, 0], [255, 255]]
   \<and> mask_le [[0, 0], [255, 255]] [[0, 255], [255, 255]]"
proof -
  have h2: "(0 :: nat) < 2" by simp
  have h4: "\<not> use_hsv chroma_pick" and h5: "tolA chroma_pick \<le> 6"
    by (simp_all add: chroma_pick_def default_chroma_def)
  show ?thesis
    using alpha_monotone_in_tolA [OF has_shape_frame_2x2 h2 h2 h4 h5 blur_monotone_sample]
      has_shape_frame_2x2 h4 h5 blur_monotone_sample
    by (simp add: pick_tol0 pick_tol6)
qed


subsection \<open>A tick without a frame\<close>

lemma on_tick_miss:
  assumes "cap_opened self" and "\<not> ok \<or> frame = None"
  shows "on_tick cv self (ok, frame) send_ok =
     (if no_frame_count self + 1 = 1 \<or> no_frame_count self + 1 = 10
         \<or> no_frame_count self + 1 = 50 \<or> (no_frame_count self + 1) mod 100 = 0
      then self\<lparr>no_frame_count := no_frame_count self + 1,
                log := log self @ [NoFrameWarning (no_frame_count self + 1)]\<rparr>
      else self\<lparr>no_frame_count := no_frame_count self + 1\<rparr>)"
proof -
  have "(if fst (ok, frame) then snd (ok, frame) else None) = None"
    using assms(2) by auto
  then show ?thesis
    using assms(1) by (simp add: on_tick_def Let_def)
qed

lemma on_tick_read_resets:
  "cap_opened self \<Longrightarrow>
   no_frame_count (on_tick cv self (True, Some frame) send_ok) = 0"
  by (simp add: on_tick_def Let_def split: sum.split prod.split)

lemma on_tick_read_last_frame:
  "cap_opened self \<Longrightarrow>
   last_frame_bgr (on_tick cv self (True, Some frame) send_ok) = Some frame"
  by (simp add: on_tick_def Let_def split: sum.split prod.split)

lemma ticks_snoc:
  "ticks cv self (rds @ [rd]) = on_tick cv (ticks cv self rds) rd True"
  by (simp add: ticks_def)

lemma ticks_misses:
  "cap_opened self \<Longrightarrow>
   cap_opened (ticks cv self (replicate k (False, None)))
   \<and> no_frame_count (ticks cv self (replicate k (False, None))) = no_frame_count self + int k"
proof (induction k)
  case 0
  then show ?case by (simp add: ticks_def)
next
  case (Suc k)
  let ?s = "ticks cv self (replicate k (False, None))"
  have op: "cap_opened ?s" and n: "no_frame_count ?s = no_frame_count self + int k"
    using Suc by simp_all
  have "replicate (Suc k) (False, None :: image option) = replicate k (False, None) @ [(False, None)]"
    by (simp add: replicate_append_same)
  then have "ticks cv self (replicate (Suc k) (False, None)) = on_tick cv ?s (False, None) True"
    by (simp only: ticks_snoc)
  then show ?case
    using op n by (simp add: on_tick_miss)
qed

text \<open>
  C8.  With the camera open, a tick whose read fails (\<open>ok\<close> false or no frame) leaves the
  last-frame reference, the displayed image and the virtual camera's frame as they were
  and adds 1 to the miss counter; it logs a warning when the new count is 1, 10, 50 or a
  multiple of 100, and logs nothing otherwise.  After \<open>k\<close> failed reads in a row the
  counter has grown by \<open>k\<close>, and a tick whose read succeeds sets it to 0.
\<close>

theorem on_tick_no_frame:
  assumes "cap_opened self" and "\<not> ok \<or> frame = None"
  shows "last_frame_bgr (on_tick cv self (ok, frame) send_ok) = last_frame_bgr self
       \<and> current_qpix (on_tick cv self (ok, frame) send_ok) = current_qpix self
       \<and> vcam_out (on_tick cv self (ok, frame) send_ok) = vcam_out self
       \<and> no_frame_count (on_tick cv self (ok, frame) send_ok) = no_frame_count self + 1
       \<and> (no_frame_count self + 1 = 1 \<or> no_frame_count self + 1 = 10
            \<or> no_frame_count self + 1 = 50 \<or> (no_frame_count self + 1) mod 100 = 0
          \<longrightarrow> log (on_tick cv self (ok, frame) send_ok)
                = log self @ [NoFrameWarning (no_frame_count self + 1)])
       \<and> (\<not> (no_frame_count self + 1 = 1 \<or> no_frame_count self + 1 = 10
            \<or> no_frame_count self + 1 = 50 \<or> (no_frame_count self + 1) mod 100 = 0)
          \<longrightarrow> log (on_tick cv self (ok, frame) send_ok) = log self)
       \<and> no_frame_count (ticks cv self (replicate k (False, None))) = no_frame_count self + int k
       \<and> no_frame_count (on_tick cv self (True, Some fr) send_ok) = 0"
  using on_tick_miss [OF assms, of cv send_ok] ticks_misses [OF assms(1), of cv k]
    on_tick_read_resets [OF assms(1), of cv fr send_ok]
  by simp

text \<open>
  Witness for C8: the window as started, counter 0.  The first failed read is logged;
  after two failed reads the counter is 2, and the next frame resets it.
\<close>

theorem on_tick_no_frame_witness:
  "cap_opened default_window
   \<and> no_frame_count (on_tick cv_sample default_window (False, None) True) = 1
   \<and> log (on_tick cv_sample default_window (False, None) True) = [NoFrameWarning 1]
   \<and> last_frame_bgr (on_tick cv_sample default_window (False, None) True) = None
   \<and> current_qpix (on_tick cv_sample default_window (False, None) True) = None
   \<and> no_frame_count (ticks cv_sample default_window (replicate 2 (False, None))) = 2
   \<and> no_frame_count
        (on_tick cv_sample (ticks cv_sample default_window (replicate 2 (False, None)))
           (True, Some frame_2x2) True) = 0"
proof -
  have h1: "cap_opened default_window" by (simp add: default_window_def)
  have h2: "\<not> False \<or> (None :: image option) = None" by simp
  have d: "no_frame_count default_window = 0" "log default_window = []"
    "last_frame_bgr default_window = None" "current_qpix default_window = None"
    by (simp_all add: default_window_def)
  show ?thesis
    using on_tick_no_frame [OF h1 h2, of cv_sample True 2 frame_2x2] h1
      ticks_misses [OF h1, of cv_sample 2]
      on_tick_read_resets [of "ticks cv_sample default_window (replicate 2 (False, None))"
        cv_sample frame_2x2 True]
    by (simp add: d)
qed


subsection \<open>Slice assignment\<close>

lemma slice_index_inside:
  "0 \<le> k \<Longrightarrow> k \<le> int n \<Longrightarrow> slice_index n k = nat k"
  by (simp add: slice_index_def)

lemma bcast_same: "length xs = n \<Longrightarrow> bcast n xs = Some xs"
  by (simp add: bcast_def)

lemma assign_row_inside:
  assumes "length row = W" and "length vals = w" and "0 \<le> x" and "x + int w \<le> int W"
  shows "assign_row row x (x + int w) vals
           = Some (take (nat x) row @ vals @ drop (nat x + w) row)"
proof -
  have s: "slice_index (length row) x = nat x"
    using assms by (simp add: slice_index_inside)
  have e: "slice_index (length row) (x + int w) = nat x + w"
    using assms by (simp add: slice_index_inside nat_add_distrib)
  show ?thesis
    using assms(2) by (simp add: assign_row_def s e Let_def bcast_same)
qed

lemma those_map_Some:
  "(\<And>x. x \<in> set xs \<Longrightarrow> f x = Some (g x)) \<Longrightarrow> those (map f xs) = Some (map g xs)"
  by (induction xs) simp_all

lemma nth_splice:
  assumes "length d = W" and "length r = w" and "a + w \<le> W" and "j < W"
  shows "(take a d @ r @ drop (a + w) d) ! j = (if a \<le> j \<and> j < a + w then r ! (j - a) else d ! j)"
proof -
  consider "j < a" | "a \<le> j" "j < a + w" | "a + w \<le> j" by linarith
  then show ?thesis
  proof cases
    case 1
    then show ?thesis using assms by (simp add: nth_append)
  next
    case 2
    then have "j - a < w" "\<not> j < a" by linarith+
    then show ?thesis using 2 assms by (simp add: nth_append)
  next
    case 3
    then have "a + w + (j - a - w) = j" "\<not> j < a" "\<not> j - a < w" by linarith+
    then show ?thesis using 3 assms by (simp add: nth_append)
  qed
qed

lemma assign2_inside:
  assumes dst: "has_shape H W dst" and src: "has_shape h w src"
    and y: "0 \<le> y" "y + int h \<le> int H" and x: "0 \<le> x" "x + int w \<le> int W"
  shows "\<exists>out. assign2 dst y (y + int h) x (x + int w) src = Inr out
           \<and> has_shape H W out
           \<and> (\<forall>i j. i < H \<and> j < W \<longrightarrow>
                 out ! i ! j =
                   (if nat y \<le> i \<and> i < nat y + h \<and> nat x \<le> j \<and> j < nat x + w
                    then src ! (i - nat y) ! (j - nat x) else dst ! i ! j))"
proof -
  let ?g = "\<lambda>d r. take (nat x) d @ r @ drop (nat x + w) d"
  let ?mid = "take h (drop (nat y) dst)"
  let ?new = "map2 ?g ?mid src"
  let ?out = "take (nat y) dst @ ?new @ drop (nat y + h) dst"
  have lenH: "length dst = H" and lenh: "length src = h"
    using dst src by (simp_all add: has_shape_def)
  have rowW: "length d = W" if "d \<in> set dst" for d
    using dst that by (simp add: has_shape_def list_all_iff)
  have roww: "length r = w" if "r \<in> set src" for r
    using src that by (simp add: has_shape_def list_all_iff)
  have yH: "nat y + h \<le> H" using y by linarith
  have xW: "nat x + w \<le> W" using x by linarith
  have s: "slice_index (length dst) y = nat y"
    using y lenH by (simp add: slice_index_inside)
  have e: "slice_index (length dst) (y + int h) = nat y + h"
    using y lenH by (simp add: slice_index_inside nat_add_distrib)
  have lenmid: "length ?mid = h" using yH lenH by simp
  have rows: "those (map2 (\<lambda>d r. assign_row d x (x + int w) r) ?mid src) = Some ?new"
  proof -
    have "those (map (\<lambda>(d, r). assign_row d x (x + int w) r) (zip ?mid src))
            = Some (map (\<lambda>(d, r). ?g d r) (zip ?mid src))"
    proof (rule those_map_Some)
      fix p assume p: "p \<in> set (zip ?mid src)"
      obtain d r where dr: "p = (d, r)" by (cases p)
      have "d \<in> set ?mid" "r \<in> set src"
        using p dr by (auto dest: set_zip_leftD set_zip_rightD)
      then have "length d = W" "length r = w"
        using rowW roww by (auto dest: in_set_takeD in_set_dropD)
      then show "(case p of (d, r) \<Rightarrow> assign_row d x (x + int w) r)
                   = Some (case p of (d, r) \<Rightarrow> ?g d r)"
        using x dr by (simp add: assign_row_inside)
    qed
    then show ?thesis by simp
  qed
  have eq: "assign2 dst y (y + int h) x (x + int w) src = Inr ?out"
    by (simp add: assign2_def s e Let_def bcast_same lenh rows)
  have lennew: "length ?new = h" using lenmid lenh by simp
  have lenout: "length ?out = H" using yH lenH lennew by simp
  have nth_new: "?new ! k = ?g (dst ! (nat y + k)) (src ! k)" if "k < h" for k
    using that lenmid lenh yH lenH by simp
  have nth_out: "?out ! i = (if nat y \<le> i \<and> i < nat y + h
                              then ?g (dst ! i) (src ! (i - nat y)) else dst ! i)"
    if "i < H" for i
  proof -
    consider "i < nat y" | "nat y \<le> i" "i < nat y + h" | "nat y + h \<le> i" by linarith
    then show ?thesis
    proof cases
      case 1
      then show ?thesis using that lenH by (simp add: nth_append)
    next
      case 2
      then have "i - nat y < h" by linarith
      then show ?thesis using 2 that lenH lennew nth_new [of "i - nat y"]
        by (simp add: nth_append)
    next
      case 3
      then have "nat y + h + (i - nat y - h) = i" "\<not> i < nat y" "\<not> i - nat y < h"
        by linarith+
      then show ?thesis using 3 that lenH lennew yH
        by (simp add: nth_append)
    qed
  qed
  have dW: "length (dst ! i) = W" if "i < H" for i
    using dst that by (rule has_shape_nth)
  have sw: "length (src ! k) = w" if "k < h" for k
    using src that by (rule has_shape_nth)
  have lenrow: "length (?out ! i) = W" if "i < H" for i
  proof (cases "nat y \<le> i \<and> i < nat y + h")
    case True
    then have k: "i - nat y < h" by linarith
    have "?out ! i = ?g (dst ! i) (src ! (i - nat y))"
      using True nth_out [OF that] by simp
    then show ?thesis
      using dW [OF that] sw [OF k] xW by simp
  next
    case False
    then have "?out ! i = dst ! i" using nth_out [OF that] by auto
    then show ?thesis using dW [OF that] by simp
  qed
  have shape: "has_shape H W ?out"
    using lenout lenrow by (simp add: has_shape_def list_all_length)
  have px: "?out ! i ! j =
      (if nat y \<le> i \<and> i < nat y + h \<and> nat x \<le> j \<and> j < nat x + w
       then src ! (i - nat y) ! (j - nat x) else dst ! i ! j)"
    if "i < H" "j < W" for i j
  proof (cases "nat y \<le> i \<and> i < nat y + h")
    case True
    then have k: "i - nat y < h" by linarith
    have "?out ! i ! j = ?g (dst ! i) (src ! (i - nat y)) ! j"
      using True nth_out [OF that(1)] by simp
    also have "\<dots> = (if nat x \<le> j \<and> j < nat x + w then src ! (i - nat y) ! (j - nat x)
                       else dst ! i ! j)"
      using dW [OF that(1)] sw [OF k] xW that(2) by (rule nth_splice)
    finally show ?thesis using True by simp
  next
    case False
    then have "?out ! i = dst ! i" using nth_out [OF that(1)] by auto
    then show ?thesis using False by auto
  qed
  show ?thesis
    using eq shape px by blast
qed


subsection \<open>Cover fit and letterbox\<close>

lemma nth_full:
  "i < nat h \<Longrightarrow> j < nat w \<Longrightarrow> full h w v ! i ! j = v"
  by (simp add: full_def)

lemma cv2_resize_ok:
  assumes "resize_ok cv" and "has_shape h w rgb" and "0 < h" and "0 < w"
    and "1 \<le> nw" and "1 \<le> nh"
  shows "cv2_resize cv rgb (nw, nh) interp = Inr (cv_resize cv interp rgb (nat nw) (nat nh))"
    and "has_shape (nat nh) (nat nw) (cv_resize cv interp rgb (nat nw) (nat nh))"
proof -
  have "shape0 rgb = int h" "shape1 rgb = int w"
    using assms(2,3) by (simp_all add: has_shape_shape0 has_shape_shape1)
  then show "cv2_resize cv rgb (nw, nh) interp = Inr (cv_resize cv interp rgb (nat nw) (nat nh))"
    using assms(3-6) by (simp add: cv2_resize_def)
  show "has_shape (nat nh) (nat nw) (cv_resize cv interp rgb (nat nw) (nat nh))"
    using assms(1) by (simp add: resize_ok_def)
qed

lemma cv2_resize_empty_size:
  "nw < 1 \<or> nh < 1 \<Longrightarrow> cv2_resize cv rgb (nw, nh) interp = Inl CvError"
  by (auto simp: cv2_resize_def)

lemma center_crop_fit_sized_ok:
  assumes "resize_ok cv" and "has_shape h w rgb" and "0 < h" and "0 < w"
    and "0 < W" and "0 < H" and "1 \<le> nw" and "1 \<le> nh"
  shows "\<exists>out. center_crop_fit_sized cv rgb (nw, nh) W H = Inr out
           \<and> has_shape (nat H) (nat W) out
           \<and> (\<forall>i j. i < nat H \<and> j < nat W \<and> (nat (min nh H) \<le> i \<or> nat (min nw W) \<le> j)
                 \<longrightarrow> out ! i ! j = black)"
proof -
  let ?rs = "cv_resize cv INTER_AREA rgb (nat nw) (nat nh)"
  let ?x = "max 0 ((nw - W) div 2)" and ?y = "max 0 ((nh - H) div 2)"
  let ?x2 = "min nw (?x + W)" and ?y2 = "min nh (?y + H)"
  let ?out = "slice2 ?y ?y2 ?x ?x2 ?rs"
  let ?oh = "nat (min nh H)" and ?ow = "nat (min nw W)"
  have rs: "cv2_resize cv rgb (nw, nh) INTER_AREA = Inr ?rs"
    and rs_shape: "has_shape (nat nh) (nat nw) ?rs"
    using assms(1-4,7,8) by (rule cv2_resize_ok)+
  have xs: "0 \<le> ?x" "?x \<le> ?x2" "?x2 \<le> int (nat nw)" "?x2 - ?x = min nw W"
    using assms(5,7) by auto
  have ys: "0 \<le> ?y" "?y \<le> ?y2" "?y2 \<le> int (nat nh)" "?y2 - ?y = min nh H"
    using assms(6,8) by auto
  have "has_shape (nat (?y2 - ?y)) (nat (?x2 - ?x)) ?out"
    using rs_shape ys(1-3) xs(1-3) by (rule has_shape_slice2)
  then have out_shape: "has_shape ?oh ?ow ?out"
    by (simp only: xs(4) ys(4))
  have pos: "0 < ?oh" "0 < ?ow" using assms(5-8) by simp_all
  have s0: "shape0 ?out = min nh H" and s1: "shape1 ?out = min nw W"
    using out_shape pos assms(5-8)
    by (simp_all add: has_shape_shape0 has_shape_shape1)
  show ?thesis
  proof (cases "min nh H \<noteq> H \<or> min nw W \<noteq> W")
    case True
    have dst: "has_shape (nat H) (nat W) (full H W black)"
      using assms(5,6) by (intro has_shape_full) simp_all
    have b: "(0 :: int) \<le> 0" "0 + int ?oh \<le> int (nat H)" "0 + int ?ow \<le> int (nat W)"
      using assms(5-8) by simp_all
    obtain out where out:
      "assign2 (full H W black) 0 (0 + int ?oh) 0 (0 + int ?ow) ?out = Inr out"
      "has_shape (nat H) (nat W) out"
      "\<forall>i j. i < nat H \<and> j < nat W \<longrightarrow>
         out ! i ! j =
           (if nat 0 \<le> i \<and> i < nat 0 + ?oh \<and> nat 0 \<le> j \<and> j < nat 0 + ?ow
            then ?out ! (i - nat 0) ! (j - nat 0) else full H W black ! i ! j)"
      using assign2_inside [OF dst out_shape b(1,2) b(1,3)] by blast
    have idx: "0 + int ?oh = min nh H" "0 + int ?ow = min nw W"
      using assms(5-8) by simp_all
    have out1: "assign2 (full H W black) 0 (min nh H) 0 (min nw W) ?out = Inr out"
      using out(1) by (simp only: idx)
    have cond: "\<not> (H < 0 \<or> W < 0)" using assms(5,6) by simp
    have eq: "center_crop_fit_sized cv rgb (nw, nh) W H = Inr out"
      unfolding center_crop_fit_sized_def prod.case rs sum.case Let_def s0 s1
      using True cond out1 by (simp only: if_True if_False)
    have "out ! i ! j = black"
      if "i < nat H" "j < nat W" "?oh \<le> i \<or> ?ow \<le> j" for i j
    proof -
      have "out ! i ! j = full H W black ! i ! j"
        using out(3) that by auto
      then show ?thesis using that(1,2) by (simp add: nth_full)
    qed
    then show ?thesis using eq out(2) by blast
  next
    case False
    then have m: "min nh H = H" "min nw W = W" by simp_all
    have eq: "center_crop_fit_sized cv rgb (nw, nh) W H = Inr ?out"
      unfolding center_crop_fit_sized_def prod.case rs sum.case Let_def s0 s1
      using False by (simp only: if_False)
    have "has_shape (nat H) (nat W) ?out"
      using out_shape by (simp only: m)
    then show ?thesis using eq m by auto
  qed
qed

lemma letterbox_sized_ok:
  assumes "resize_ok cv" and "has_shape h w rgb" and "0 < h" and "0 < w"
    and "1 \<le> nw" and "nw \<le> W" and "1 \<le> nh" and "nh \<le> H"
  shows "\<exists>out. letterbox_sized cv rgb (nw, nh) W H = Inr out
           \<and> has_shape (nat H) (nat W) out
           \<and> (\<forall>i j. i < nat H \<and> j < nat W \<longrightarrow>
                 out ! i ! j =
                   (if nat ((H - nh) div 2) \<le> i \<and> i < nat ((H - nh) div 2) + nat nh
                       \<and> nat ((W - nw) div 2) \<le> j \<and> j < nat ((W - nw) div 2) + nat nw
                    then cv_resize cv INTER_AREA rgb (nat nw) (nat nh)
                           ! (i - nat ((H - nh) div 2)) ! (j - nat ((W - nw) div 2))
                    else black))"
proof -
  let ?rs = "cv_resize cv INTER_AREA rgb (nat nw) (nat nh)"
  let ?x = "(W - nw) div 2" and ?y = "(H - nh) div 2"
  have rs: "cv2_resize cv rgb (nw, nh) INTER_AREA = Inr ?rs"
    and rs_shape: "has_shape (nat nh) (nat nw) ?rs"
    using assms(1-5,7) by (rule cv2_resize_ok)+
  have dst: "has_shape (nat H) (nat W) (full H W black)"
    using assms(5-8) by (intro has_shape_full) simp_all
  have bx: "0 \<le> ?x" "?x + int (nat nw) \<le> int (nat W)"
    using assms(5,6) by auto
  have "by": "0 \<le> ?y" "?y + int (nat nh) \<le> int (nat H)"
    using assms(7,8) by auto
  obtain out where out:
    "assign2 (full H W black) ?y (?y + int (nat nh)) ?x (?x + int (nat nw)) ?rs = Inr out"
    "has_shape (nat H) (nat W) out"
    "\<forall>i j. i < nat H \<and> j < nat W \<longrightarrow>
       out ! i ! j =
         (if nat ?y \<le> i \<and> i < nat ?y + nat nh \<and> nat ?x \<le> j \<and> j < nat ?x + nat nw
          then ?rs ! (i - nat ?y) ! (j - nat ?x) else full H W black ! i ! j)"
    using assign2_inside [OF dst rs_shape "by" bx] by blast
  have idx: "int (nat nw) = nw" "int (nat nh) = nh" using assms(5,7) by simp_all
  have eq: "letterbox_sized cv rgb (nw, nh) W H = Inr out"
    using out(1) assms(5-8) by (simp add: letterbox_sized_def rs Let_def idx)
  have "out ! i ! j =
         (if nat ?y \<le> i \<and> i < nat ?y + nat nh \<and> nat ?x \<le> j \<and> j < nat ?x + nat nw
          then ?rs ! (i - nat ?y) ! (j - nat ?x) else black)"
    if "i < nat H" "j < nat W" for i j
    using out(3) that by (simp add: nth_full)
  then show ?thesis using eq out(2) by blast
qed

lemma letterbox_centered:
  "nw \<le> W \<Longrightarrow>
   0 \<le> (W - nw) div 2 \<and> (W - nw) div 2 \<le> W - ((W - nw) div 2 + nw)
   \<and> W - ((W - nw) div 2 + nw) \<le> (W - nw) div 2 + 1"
  for W nw :: int
  by auto

lemma letterbox_sized_empty:
  "nw < 1 \<or> nh < 1 \<Longrightarrow> letterbox_sized cv rgb (nw, nh) W H = Inl CvError"
  by (simp add: letterbox_sized_def cv2_resize_empty_size)


subsection \<open>Rounding to a double\<close>

lemma bit_length_pos: "0 < n \<Longrightarrow> bit_length n = Suc (bit_length (n div 2))"
  by (subst bit_length.simps) simp

lemma bit_length_bounds:
  "0 < n \<Longrightarrow> 2 ^ (bit_length n - 1) \<le> n \<and> n < 2 ^ bit_length n"
proof (induction n rule: bit_length.induct)
  case (1 n)
  have n0: "n \<noteq> 0" using "1.prems" by simp
  have bl: "bit_length n = Suc (bit_length (n div 2))"
    using "1.prems" by (rule bit_length_pos)
  have d1: "2 * (n div 2) \<le> n" and d2: "n < 2 * (n div 2) + 2"
    by presburger+
  show ?case
  proof (cases "n div 2 = 0")
    case True
    have "bit_length (n div 2) = 0" by (subst bit_length.simps) (simp add: True)
    then show ?thesis using bl d2 True "1.prems" by simp
  next
    case False
    then have pos: "0 < n div 2" by simp
    let ?k = "bit_length (n div 2)"
    have ih: "2 ^ (?k - 1) \<le> n div 2" "n div 2 < 2 ^ ?k"
      using "1.IH" [OF n0 pos] by simp_all
    have "?k = Suc (?k - 1)" using bit_length_pos [OF pos] by simp
    then have p: "(2 :: nat) ^ ?k = 2 * 2 ^ (?k - 1)"
      by (metis power_Suc)
    have lo: "2 ^ ?k \<le> n" using ih(1) p d1 by linarith
    have hi: "n < 2 * 2 ^ ?k" using ih(2) d2 by linarith
    show ?thesis using lo hi by (simp add: bl)
  qed
qed

lemma floor_log2_le:
  assumes "0 < q"
  shows "power_int 2 (floor_log2 q) \<le> q"
proof (cases "1 \<le> q")
  case True
  let ?n = "nat (floor q)"
  let ?k = "bit_length ?n"
  have fl: "1 \<le> floor q" using True by (simp add: le_floor_iff)
  then have n: "0 < ?n" by simp
  have "(2 :: nat) ^ (?k - 1) \<le> ?n"
    using bit_length_bounds [OF n] by (rule conjunct1)
  then have "(of_nat (2 ^ (?k - 1)) :: rat) \<le> of_nat ?n"
    by (simp only: of_nat_le_iff)
  then have a: "(2 :: rat) ^ (?k - 1) \<le> of_nat ?n"
    by (simp only: of_nat_power of_nat_numeral)
  have "(of_nat ?n :: rat) = of_int (floor q)"
    using fl by simp
  also have "\<dots> \<le> q" by (rule of_int_floor_le)
  finally have le: "(2 :: rat) ^ (?k - 1) \<le> q" using a by (rule order_trans [rotated])
  have "?k = Suc (?k - 1)" using bit_length_pos [OF n] by simp
  then have "int ?k - 1 = int (?k - 1)" by linarith
  then have "floor_log2 q = int (?k - 1)"
    using True by (simp only: floor_log2_def if_True)
  then show ?thesis using le by (simp only: power_int_of_nat)
next
  case False
  let ?c = "ceiling (1 / q)"
  let ?n = "nat (?c - 1)"
  let ?k = "bit_length ?n"
  have q1: "q < 1" using False by simp
  have "1 < 1 / q" using assms q1 by (simp add: less_divide_eq)
  then have c: "2 \<le> ?c" by linarith
  then have n: "0 < ?n" by linarith
  have "?n < 2 ^ ?k" using bit_length_bounds [OF n] by (rule conjunct2)
  then have "Suc ?n \<le> 2 ^ ?k" by (rule Suc_leI)
  then have "(of_nat (Suc ?n) :: rat) \<le> of_nat (2 ^ ?k)"
    by (simp only: of_nat_le_iff)
  then have b: "(of_nat (Suc ?n) :: rat) \<le> 2 ^ ?k"
    by (simp only: of_nat_power of_nat_numeral)
  have "0 \<le> ?c - 1" using c by linarith
  then have "int ?n = ?c - 1" by (rule nat_0_le)
  then have "int (Suc ?n) = ?c" by simp
  then have "(of_nat (Suc ?n) :: rat) = of_int ?c"
    by (metis of_int_of_nat_eq)
  then have "of_int ?c \<le> (2 :: rat) ^ ?k" using b by simp
  moreover have "1 / q \<le> of_int ?c" by (rule le_of_int_ceiling)
  ultimately have "1 / q \<le> (2 :: rat) ^ ?k" by (rule order_trans [rotated])
  then have "1 \<le> 2 ^ ?k * q"
    using assms by (simp only: pos_divide_le_eq)
  then have "1 / 2 ^ ?k \<le> q"
    by (simp add: pos_divide_le_eq mult.commute)
  moreover have "floor_log2 q = - int ?k"
    using False by (simp only: floor_log2_def if_False)
  moreover have "power_int (2 :: rat) (- int ?k) = 1 / 2 ^ ?k"
    by (simp only: power_int_minus power_int_of_nat inverse_eq_divide)
  ultimately show ?thesis by simp
qed

lemma round_half_even_bounds:
  "x - 1 / 2 \<le> of_int (round_half_even x) \<and> of_int (round_half_even x) \<le> x + 1 / 2"
proof -
  let ?f = "floor x"
  let ?d = "x - of_int ?f"
  have f: "of_int ?f \<le> x" "x < of_int ?f + 1" by linarith+
  consider "?d < 1 / 2" | "1 / 2 < ?d" | "?d = 1 / 2" by linarith
  then show ?thesis
  proof cases
    case 1
    then have "round_half_even x = ?f" by (simp add: round_half_even_def Let_def)
    then show ?thesis using 1 f by (simp only:) linarith
  next
    case 2
    then have "round_half_even x = ?f + 1" by (simp add: round_half_even_def Let_def)
    then show ?thesis using 2 f by (simp only:) linarith
  next
    case 3
    then have "round_half_even x = ?f \<or> round_half_even x = ?f + 1"
      by (simp add: round_half_even_def Let_def)
    then show ?thesis
    proof
      assume "round_half_even x = ?f"
      then show ?thesis using 3 f by (simp only:) linarith
    next
      assume "round_half_even x = ?f + 1"
      then show ?thesis using 3 f by (simp only: of_int_add of_int_1) linarith
    qed
  qed
qed

lemma round_double_pos:
  assumes "0 < q"
  shows "0 < round_double q \<and> round_double q \<le> q * (1 + 1 / 2 ^ 53)"
proof -
  let ?e = "floor_log2 q"
  let ?u = "power_int 2 (?e - 52) :: rat"
  let ?m = "q / ?u"
  let ?r = "of_int (round_half_even ?m) :: rat"
  have u: "0 < ?u" by simp
  have "?u * 2 ^ 52 = power_int 2 ?e"
    by (simp add: power_int_diff)
  also have "\<dots> \<le> q" using assms by (rule floor_log2_le)
  finally have uq: "?u * 2 ^ 52 \<le> q" .
  then have m: "2 ^ 52 \<le> ?m" using u by (simp add: field_simps)
  have r: "?m - 1 / 2 \<le> ?r" "?r \<le> ?m + 1 / 2"
    using round_half_even_bounds [of ?m] by simp_all
  have "(1 :: rat) \<le> 2 ^ 52" by simp
  then have rpos: "0 < ?r" using r(1) m by linarith
  have rd: "round_double q = ?r * ?u"
    using assms by (simp add: round_double_def Let_def)
  have "?r * ?u \<le> (?m + 1 / 2) * ?u"
    using r(2) u by (intro mult_right_mono) simp_all
  also have "\<dots> = q + ?u / 2" using u by (simp add: field_simps)
  also have "\<dots> \<le> q + q / 2 ^ 53"
    using uq by (simp add: field_simps)
  also have "\<dots> = q * (1 + 1 / 2 ^ 53)" by (simp add: field_simps)
  finally have "round_double q \<le> q * (1 + 1 / 2 ^ 53)" by (simp only: rd)
  moreover have "0 < round_double q"
    unfolding rd using rpos u by (rule mult_pos_pos)
  ultimately show ?thesis by simp
qed


lemma py_truediv_pos:
  assumes "0 < a" and "0 < b"
  shows "0 < py_truediv a b"
    and "py_truediv a b \<le> of_int a / of_int b * (1 + 1 / 2 ^ 53)"
proof -
  have "0 < (of_int a / of_int b :: rat)" using assms by simp
  then show "0 < py_truediv a b"
    and "py_truediv a b \<le> of_int a / of_int b * (1 + 1 / 2 ^ 53)"
    unfolding py_truediv_def using round_double_pos by blast+
qed

lemma py_mul_pos:
  assumes "0 < n" and "0 < x"
  shows "0 < py_mul n x"
    and "py_mul n x \<le> of_int n * x * ((1 + 1 / 2 ^ 53) * (1 + 1 / 2 ^ 53))"
proof -
  let ?c = "1 + 1 / 2 ^ 53 :: rat"
  have c: "0 < ?c" by simp
  have n: "0 < (of_int n :: rat)" using assms(1) by simp
  have r1: "0 < round_double (of_int n)" "round_double (of_int n) \<le> of_int n * ?c"
    using round_double_pos [OF n] by simp_all
  have p: "0 < round_double (of_int n) * x" using r1(1) assms(2) by (rule mult_pos_pos)
  have r2: "0 < py_mul n x" "py_mul n x \<le> round_double (of_int n) * x * ?c"
    unfolding py_mul_def using round_double_pos [OF p] by simp_all
  have "round_double (of_int n) * x \<le> of_int n * ?c * x"
    by (rule mult_right_mono [OF r1(2) less_imp_le [OF assms(2)]])
  then have "round_double (of_int n) * x * ?c \<le> of_int n * ?c * x * ?c"
    by (rule mult_right_mono [OF _ less_imp_le [OF c]])
  also have "\<dots> = of_int n * x * (?c * ?c)" by (simp only: mult_ac)
  finally have "py_mul n x \<le> of_int n * x * (?c * ?c)" using r2(2) by (rule order_trans [rotated])
  then show "0 < py_mul n x"
    and "py_mul n x \<le> of_int n * x * ((1 + 1 / 2 ^ 53) * (1 + 1 / 2 ^ 53))"
    using r2(1) by simp_all
qed

lemma cover_dims_pos:
  assumes "0 < w" and "0 < h" and "0 < W" and "0 < H"
    and "cover_dims w h W H = (nw, nh)"
  shows "1 \<le> nw \<and> 1 \<le> nh"
proof -
  let ?s = "max (py_truediv W w) (py_truediv H h)"
  have "0 < py_truediv W w" using assms(3,1) by (rule py_truediv_pos)
  then have s: "0 < ?s" by (simp add: less_max_iff_disj)
  have nw: "nw = ceiling (py_mul w ?s)" and nh: "nh = ceiling (py_mul h ?s)"
    using assms(5) by (simp_all add: cover_dims_def Let_def)
  have "0 < py_mul w ?s" using assms(1) s by (rule py_mul_pos)
  then have "0 < nw" unfolding nw by (simp add: zero_less_ceiling)
  moreover have "0 < py_mul h ?s" using assms(2) s by (rule py_mul_pos)
  then have "0 < nh" unfolding nh by (simp add: zero_less_ceiling)
  ultimately show ?thesis by simp
qed

lemma scaled_side_le:
  assumes "0 < w" and "0 < W" and "W < 2 ^ 31"
    and "0 < s" and "s \<le> py_truediv W w"
  shows "0 \<le> py_int (py_mul w s) \<and> py_int (py_mul w s) \<le> W"
proof -
  let ?c = "1 + 1 / 2 ^ 53 :: rat"
  let ?x = "py_mul w s"
  have c: "0 < ?c" by simp
  have wq: "0 < (of_int w :: rat)" and Wq: "0 < (of_int W :: rat)"
    using assms(1,2) by simp_all
  have x: "0 < ?x" "?x \<le> of_int w * s * (?c * ?c)"
    using py_mul_pos [OF assms(1,4)] by simp_all
  have "s \<le> of_int W / of_int w * ?c"
    using assms(5) py_truediv_pos(2) [OF assms(2,1)] by (rule order_trans)
  then have "of_int w * s \<le> of_int w * (of_int W / of_int w * ?c)"
    by (rule mult_left_mono [OF _ less_imp_le [OF wq]])
  also have "\<dots> = of_int W * ?c" using wq by simp
  finally have ws: "of_int w * s \<le> of_int W * ?c" .
  have cc: "0 \<le> ?c * ?c" by simp
  have "of_int w * s * (?c * ?c) \<le> of_int W * ?c * (?c * ?c)"
    by (rule mult_right_mono [OF ws cc])
  with x(2) have "?x \<le> of_int W * ?c * (?c * ?c)" by (rule order_trans)
  also have "\<dots> = of_int W * (?c * ?c * ?c)" by (simp only: mult.assoc)
  finally have x2: "?x \<le> of_int W * (?c * ?c * ?c)" .
  have ccc: "?c * ?c * ?c \<le> 1 + 1 / 2 ^ 51" by simp
  have "of_int W * (?c * ?c * ?c) \<le> of_int W * (1 + 1 / 2 ^ 51)"
    by (rule mult_left_mono [OF ccc less_imp_le [OF Wq]])
  also have "\<dots> = of_int W + of_int W / 2 ^ 51" by (simp add: distrib_left)
  also have "\<dots> < of_int W + 1"
  proof -
    have "(of_int W :: rat) < of_int (2 ^ 31)" using assms(3) by (simp only: of_int_less_iff)
    then have "(of_int W :: rat) < 2 ^ 51" by simp
    then show ?thesis by simp
  qed
  finally have x3: "?x < of_int W + 1" using x2 by linarith
  have "py_int ?x = floor ?x" using x(1) by (simp add: py_int_def)
  moreover have "0 \<le> floor ?x" using x(1) by simp
  moreover have "floor ?x \<le> W" using x3 by (simp add: floor_le_iff)
  ultimately show ?thesis by simp
qed

lemma letterbox_dims_le:
  assumes "0 < w" and "0 < h" and "0 < W" and "0 < H" and "W < 2 ^ 31" and "H < 2 ^ 31"
    and "letterbox_dims w h W H = (nw, nh)"
  shows "0 \<le> nw \<and> nw \<le> W \<and> 0 \<le> nh \<and> nh \<le> H"
proof -
  let ?s = "min (py_truediv W w) (py_truediv H h)"
  have "0 < py_truediv W w" using assms(3,1) by (rule py_truediv_pos)
  moreover have "0 < py_truediv H h" using assms(4,2) by (rule py_truediv_pos)
  ultimately have s: "0 < ?s" by simp
  have nw: "nw = py_int (py_mul w ?s)" and nh: "nh = py_int (py_mul h ?s)"
    using assms(7) by (simp_all add: letterbox_dims_def Let_def)
  have "0 \<le> py_int (py_mul w ?s) \<and> py_int (py_mul w ?s) \<le> W"
    using assms(1,3,5) s by (rule scaled_side_le) simp
  moreover have "0 \<le> py_int (py_mul h ?s) \<and> py_int (py_mul h ?s) \<le> H"
    using assms(2,4,6) s by (rule scaled_side_le) simp
  ultimately show ?thesis by (simp add: nw nh)
qed

text \<open>
  The model of the float operations at sizes where the rounding shows: the scaled sizes
  are the ones Python computes.
\<close>

lemma dims_examples:
  "letterbox_dims 49 49 1 1 = (0, 0)"
  "letterbox_dims 700 700 1280 720 = (719, 719)"
  "letterbox_dims 400 400 1920 1080 = (1080, 1080)"
  "cover_dims 340 340 1920 1080 = (1921, 1921)"
  "window_dims 640 480 500 = (667, 501)"
  by code_simp+

subsection \<open>The fits at their computed sizes\<close>

lemma center_crop_fit_ok:
  assumes "resize_ok cv" and "has_shape h w rgb" and "0 < h" and "0 < w"
    and "0 < W" and "0 < H"
  shows "\<exists>out. center_crop_fit cv rgb W H = Inr out \<and> has_shape (nat H) (nat W) out"
proof -
  obtain nw nh where d: "cover_dims (int w) (int h) W H = (nw, nh)"
    by (cases "cover_dims (int w) (int h) W H")
  have wh: "0 < int w" "0 < int h" using assms(3,4) by simp_all
  have "1 \<le> nw \<and> 1 \<le> nh"
    using wh assms(5,6) d by (rule cover_dims_pos)
  then have n: "1 \<le> nw" "1 \<le> nh" by simp_all
  have s: "shape0 rgb = int h" "shape1 rgb = int w"
    using assms(2,3) by (simp_all add: has_shape_shape0 has_shape_shape1)
  have "center_crop_fit cv rgb W H = center_crop_fit_sized cv rgb (nw, nh) W H"
    using assms(3,4) by (simp add: center_crop_fit_def s d Let_def)
  then show ?thesis
    using center_crop_fit_sized_ok [OF assms n] by auto
qed

lemma letterbox_unfold:
  assumes "has_shape h w rgb" and "0 < h" and "0 < w"
  shows "letterbox cv rgb W H = letterbox_sized cv rgb (letterbox_dims (int w) (int h) W H) W H"
proof -
  have s: "shape0 rgb = int h" "shape1 rgb = int w"
    using assms(1,2) by (simp_all add: has_shape_shape0 has_shape_shape1)
  show ?thesis
    using assms(2,3) by (simp add: letterbox_def s Let_def)
qed

text \<open>
  C2, as the code has it.  Take an image of positive width and height, a positive target
  width \<open>W\<close> and height \<open>H\<close>, all four below \<open>2 ^ 31\<close> (the sizes of OpenCV are 32-bit
  integers; the quotients and products of such sides are inside the exponent range of a
  double), and a resize that returns the size it is asked for.

  Cover fit: \<open>center_crop_fit\<close> returns a buffer of exactly \<open>W\<close> by \<open>H\<close>.  Whatever
  scaled size \<open>(cw, ch)\<close> with both sides at least 1 the resize is given, the result is
  exactly \<open>W\<close> by \<open>H\<close>, and where the scaled image falls short of the target the pixels
  from column \<open>cw\<close> on and from row \<open>ch\<close> on are zero.

  Letterbox: let \<open>(nw, nh)\<close> be the scaled size \<open>(int(w * scale), int(h * scale))\<close> that
  \<open>letterbox\<close> computes.  It never exceeds the target.  When both sides are at least 1,
  \<open>letterbox\<close> returns a buffer of exactly \<open>W\<close> by \<open>H\<close> that holds the resized image in
  the rectangle at offset \<open>((W - nw) div 2, (H - nh) div 2)\<close> and zero everywhere else.
  When a side is below 1, the resize raises and \<open>letterbox\<close> returns no buffer.  The
  left margin is at most the right margin and they differ by at most 1, and so for top
  and bottom.
\<close>

theorem fit_exact_size:
  assumes "resize_ok cv" and "has_shape h w rgb" and "0 < h" and "0 < w"
    and "0 < W" and "0 < H" and "W < 2 ^ 31" and "H < 2 ^ 31"
    and "letterbox_dims (int w) (int h) W H = (nw, nh)"
    and "int w < 2 ^ 31" and "int h < 2 ^ 31"
  shows "(\<exists>out. center_crop_fit cv rgb W H = Inr out \<and> has_shape (nat H) (nat W) out)
       \<and> (\<forall>cw ch. 1 \<le> cw \<and> 1 \<le> ch \<longrightarrow>
            (\<exists>out. center_crop_fit_sized cv rgb (cw, ch) W H = Inr out
               \<and> has_shape (nat H) (nat W) out
               \<and> (\<forall>i j. i < nat H \<and> j < nat W \<and> (nat (min ch H) \<le> i \<or> nat (min cw W) \<le> j)
                     \<longrightarrow> out ! i ! j = black)))
       \<and> (0 \<le> nw \<and> nw \<le> W \<and> 0 \<le> nh \<and> nh \<le> H)
       \<and> (1 \<le> nw \<and> 1 \<le> nh \<longrightarrow>
            (\<exists>out. letterbox cv rgb W H = Inr out
               \<and> has_shape (nat H) (nat W) out
               \<and> (\<forall>i j. i < nat H \<and> j < nat W \<longrightarrow>
                     out ! i ! j =
                       (if nat ((H - nh) div 2) \<le> i \<and> i < nat ((H - nh) div 2) + nat nh
                           \<and> nat ((W - nw) div 2) \<le> j \<and> j < nat ((W - nw) div 2) + nat nw
                        then cv_resize cv INTER_AREA rgb (nat nw) (nat nh)
                               ! (i - nat ((H - nh) div 2)) ! (j - nat ((W - nw) div 2))
                        else black))))
       \<and> (nw < 1 \<or> nh < 1 \<longrightarrow> letterbox cv rgb W H = Inl CvError)
       \<and> (0 \<le> (W - nw) div 2 \<and> (W - nw) div 2 \<le> W - ((W - nw) div 2 + nw)
            \<and> W - ((W - nw) div 2 + nw) \<le> (W - nw) div 2 + 1)
       \<and> (0 \<le> (H - nh) div 2 \<and> (H - nh) div 2 \<le> H - ((H - nh) div 2 + nh)
            \<and> H - ((H - nh) div 2 + nh) \<le> (H - nh) div 2 + 1)"
proof -
  have cover_top: "\<exists>out. center_crop_fit cv rgb W H = Inr out \<and> has_shape (nat H) (nat W) out"
    using assms(1-6) by (rule center_crop_fit_ok)
  have cover: "\<forall>cw ch. 1 \<le> cw \<and> 1 \<le> ch \<longrightarrow>
            (\<exists>out. center_crop_fit_sized cv rgb (cw, ch) W H = Inr out
               \<and> has_shape (nat H) (nat W) out
               \<and> (\<forall>i j. i < nat H \<and> j < nat W \<and> (nat (min ch H) \<le> i \<or> nat (min cw W) \<le> j)
                     \<longrightarrow> out ! i ! j = black))"
    using center_crop_fit_sized_ok [OF assms(1-6)] by blast
  have wh: "0 < int w" "0 < int h" using assms(3,4) by simp_all
  have dims: "0 \<le> nw \<and> nw \<le> W \<and> 0 \<le> nh \<and> nh \<le> H"
    using wh assms(5,6,7,8,9) by (rule letterbox_dims_le)
  have top: "letterbox cv rgb W H = letterbox_sized cv rgb (nw, nh) W H"
    using letterbox_unfold [OF assms(2-4), of cv W H] by (simp only: assms(9))
  have lb: "1 \<le> nw \<and> 1 \<le> nh \<longrightarrow>
            (\<exists>out. letterbox cv rgb W H = Inr out
               \<and> has_shape (nat H) (nat W) out
               \<and> (\<forall>i j. i < nat H \<and> j < nat W \<longrightarrow>
                     out ! i ! j =
                       (if nat ((H - nh) div 2) \<le> i \<and> i < nat ((H - nh) div 2) + nat nh
                           \<and> nat ((W - nw) div 2) \<le> j \<and> j < nat ((W - nw) div 2) + nat nw
                        then cv_resize cv INTER_AREA rgb (nat nw) (nat nh)
                               ! (i - nat ((H - nh) div 2)) ! (j - nat ((W - nw) div 2))
                        else black)))"
  proof
    assume "1 \<le> nw \<and> 1 \<le> nh"
    then have n: "1 \<le> nw" "nw \<le> W" "1 \<le> nh" "nh \<le> H" using dims by simp_all
    show "\<exists>out. letterbox cv rgb W H = Inr out
               \<and> has_shape (nat H) (nat W) out
               \<and> (\<forall>i j. i < nat H \<and> j < nat W \<longrightarrow>
                     out ! i ! j =
                       (if nat ((H - nh) div 2) \<le> i \<and> i < nat ((H - nh) div 2) + nat nh
                           \<and> nat ((W - nw) div 2) \<le> j \<and> j < nat ((W - nw) div 2) + nat nw
                        then cv_resize cv INTER_AREA rgb (nat nw) (nat nh)
                               ! (i - nat ((H - nh) div 2)) ! (j - nat ((W - nw) div 2))
                        else black))"
      unfolding top by (rule letterbox_sized_ok [OF assms(1-4) n])
  qed
  have empty: "nw < 1 \<or> nh < 1 \<longrightarrow> letterbox cv rgb W H = Inl CvError"
    unfolding top using letterbox_sized_empty by blast
  have cx: "0 \<le> (W - nw) div 2 \<and> (W - nw) div 2 \<le> W - ((W - nw) div 2 + nw)
            \<and> W - ((W - nw) div 2 + nw) \<le> (W - nw) div 2 + 1"
    using dims by (intro letterbox_centered) simp
  have cy: "0 \<le> (H - nh) div 2 \<and> (H - nh) div 2 \<le> H - ((H - nh) div 2 + nh)
            \<and> H - ((H - nh) div 2 + nh) \<le> (H - nh) div 2 + 1"
    using dims by (intro letterbox_centered) simp
  show ?thesis
    by (rule conjI [OF cover_top conjI [OF cover conjI [OF dims
          conjI [OF lb conjI [OF empty conjI [OF cx cy]]]]]])
qed

lemma resize_ok_sample: "resize_ok cv_sample"
  by (simp add: resize_ok_def cv_sample_def resize_nearest_def has_shape_def list_all_iff)

text \<open>
  Counterexample to C2 as stated.  An image 1 wide and 100 high, letterboxed into 10 by
  10: the scale is \<open>min(10 / 1, 10 / 100) = 0.1\<close>, the scaled width is \<open>int(0.1) = 0\<close>, and
  \<open>letterbox\<close> ends in the error of \<open>cv2.resize\<close> instead of a 10 by 10 buffer.  A square
  of side 49, letterboxed into 1 by 1: \<open>49 * (1 / 49)\<close> is \<open>0.9999999999999999\<close> in
  doubles, the scaled size is \<open>(0, 0)\<close>, and \<open>letterbox\<close> ends in the same error.
\<close>

theorem fit_exact_size_counterexample:
  "has_shape 100 1 (full 100 1 ((1, 2, 3) :: pixel))
   \<and> letterbox_dims 1 100 10 10 = (0, 10)
   \<and> letterbox cv_sample (full 100 1 (1, 2, 3)) 10 10 = Inl CvError
   \<and> has_shape 49 49 (full 49 49 ((1, 2, 3) :: pixel))
   \<and> letterbox_dims 49 49 1 1 = (0, 0)
   \<and> letterbox cv_sample (full 49 49 (1, 2, 3)) 1 1 = Inl CvError"
proof -
  have d: "letterbox_dims 1 100 10 10 = (0, 10)" by code_simp
  have d': "letterbox_dims 49 49 1 1 = (0, 0)" by (rule dims_examples)
  have s: "has_shape 100 1 (full 100 1 ((1, 2, 3) :: pixel))"
    using has_shape_full [of 100 1 "(1, 2, 3) :: pixel"] by simp
  have s': "has_shape 49 49 (full 49 49 ((1, 2, 3) :: pixel))"
    using has_shape_full [of 49 49 "(1, 2, 3) :: pixel"] by simp
  have e: "letterbox cv_sample (full 100 1 (1, 2, 3)) 10 10 = Inl CvError"
    by (simp add: letterbox_def shape0_full shape1_full Let_def d letterbox_sized_empty)
  have e': "letterbox cv_sample (full 49 49 (1, 2, 3)) 1 1 = Inl CvError"
    by (simp add: letterbox_def shape0_full shape1_full Let_def d' letterbox_sized_empty)
  show ?thesis
    by (rule conjI [OF s conjI [OF d conjI [OF e conjI [OF s' conjI [OF d' e']]]]])
qed

lemma letterbox_dims_2x2: "letterbox_dims 2 2 6 4 = (4, 4)"
  by code_simp

lemma resize_nearest_frame_2x2:
  "resize_nearest INTER_AREA frame_2x2 4 4 ! 0 ! 0 = (1, 2, 3)"
  "resize_nearest INTER_AREA frame_2x2 4 4 ! 3 ! 3 = (10, 11, 12)"
  by (simp_all add: resize_nearest_def frame_2x2_def)

text \<open>
  Witness for the amended C2: the 2 by 2 sample frame into 6 by 4.  The scaled size is 4
  by 4; the letterboxed buffer is 6 wide and 4 high with one zero column on each side and
  the frame's corner pixels at the corners of the content; the cover fit returns 6 by 4
  as well.
\<close>

theorem fit_exact_size_witness:
  "resize_ok cv_sample \<and> has_shape 2 2 frame_2x2
   \<and> letterbox_dims 2 2 6 4 = (4, 4)
   \<and> (\<exists>out. letterbox cv_sample frame_2x2 6 4 = Inr out
         \<and> has_shape 4 6 out
         \<and> out ! 0 ! 0 = black \<and> out ! 0 ! 1 = (1, 2, 3)
         \<and> out ! 3 ! 4 = (10, 11, 12) \<and> out ! 3 ! 5 = black)
   \<and> (\<exists>out. center_crop_fit cv_sample frame_2x2 6 4 = Inr out \<and> has_shape 4 6 out)"
proof -
  have p: "(0 :: nat) < 2" "(0 :: int) < 6" "(0 :: int) < 4"
    "(6 :: int) < 2 ^ 31" "(4 :: int) < 2 ^ 31" "int 2 < 2 ^ 31" by simp_all
  have d: "letterbox_dims (int 2) (int 2) 6 4 = (4, 4)"
    using letterbox_dims_2x2 by simp
  note t = fit_exact_size [OF resize_ok_sample has_shape_frame_2x2 p(1) p(1) p(2) p(3) p(4) p(5) d
      p(6) p(6)]
  have n: "(1 :: int) \<le> 4 \<and> (1 :: int) \<le> 4" by simp
  from t have "(1 :: int) \<le> 4 \<and> (1 :: int) \<le> 4 \<longrightarrow>
            (\<exists>out. letterbox cv_sample frame_2x2 6 4 = Inr out
               \<and> has_shape (nat 4) (nat 6) out
               \<and> (\<forall>i j. i < nat 4 \<and> j < nat 6 \<longrightarrow>
                     out ! i ! j =
                       (if nat ((4 - 4) div 2) \<le> i \<and> i < nat ((4 - 4) div 2) + nat 4
                           \<and> nat ((6 - 4) div 2) \<le> j \<and> j < nat ((6 - 4) div 2) + nat 4
                        then cv_resize cv_sample INTER_AREA frame_2x2 (nat 4) (nat 4)
                               ! (i - nat ((4 - 4) div 2)) ! (j - nat ((6 - 4) div 2))
                        else black)))"
    by blast
  from this [rule_format, OF n] obtain out where out:
    "letterbox cv_sample frame_2x2 6 4 = Inr out"
    "has_shape (nat 4) (nat 6) out"
    "\<forall>i j. i < nat 4 \<and> j < nat 6 \<longrightarrow>
       out ! i ! j =
         (if nat ((4 - 4) div 2) \<le> i \<and> i < nat ((4 - 4) div 2) + nat 4
             \<and> nat ((6 - 4) div 2) \<le> j \<and> j < nat ((6 - 4) div 2) + nat 4
          then cv_resize cv_sample INTER_AREA frame_2x2 (nat 4) (nat 4)
                 ! (i - nat ((4 - 4) div 2)) ! (j - nat ((6 - 4) div 2))
          else black)"
    by blast
  have rs: "cv_resize cv_sample = resize_nearest" by (simp add: cv_sample_def)
  have px: "out ! 0 ! 0 = black" "out ! 0 ! 1 = (1, 2, 3)"
    "out ! 3 ! 4 = (10, 11, 12)" "out ! 3 ! 5 = black"
    using out(3) [rule_format, of 0 0] out(3) [rule_format, of 0 1]
      out(3) [rule_format, of 3 4] out(3) [rule_format, of 3 5]
    by (simp_all add: rs resize_nearest_frame_2x2)
  have sh: "has_shape 4 6 out" using out(2) by simp
  have a: "\<exists>out. letterbox cv_sample frame_2x2 6 4 = Inr out
         \<and> has_shape 4 6 out
         \<and> out ! 0 ! 0 = black \<and> out ! 0 ! 1 = (1, 2, 3)
         \<and> out ! 3 ! 4 = (10, 11, 12) \<and> out ! 3 ! 5 = black"
    using out(1) sh px by blast
  from t have "\<exists>out. center_crop_fit cv_sample frame_2x2 6 4 = Inr out
      \<and> has_shape (nat 4) (nat 6) out"
    by blast
  then have b: "\<exists>out. center_crop_fit cv_sample frame_2x2 6 4 = Inr out \<and> has_shape 4 6 out"
    by simp
  show ?thesis
    by (rule conjI [OF resize_ok_sample conjI [OF has_shape_frame_2x2
          conjI [OF letterbox_dims_2x2 conjI [OF a b]]]])
qed

end
